theory Spec2Isabelle
  imports Main "HOL-Library.AList"
begin

text \<open>
  The XML viewer of \<open>public/app.js\<close>: the image index that \<open>extractContents\<close> fills, the
  resolver \<open>findImageUrl\<close>, the renderer (\<open>renderElement\<close>, \<open>renderChildren\<close>, \<open>renderImage\<close>,
  \<open>renderTable\<close>, \<open>renderList\<close>, \<open>hasBlockElements\<close>, \<open>escapeHtml\<close>), the raw view
  \<open>formatXML\<close>, and the state that \<open>processFile\<close> and \<open>reset\<close> change. The definitions come
  first, the facts about them after.
\<close>

section \<open>JavaScript strings\<close>

text \<open>
  A JavaScript string is modelled as a \<^typ>\<open>string\<close>, one \<^typ>\<open>char\<close> per code unit; the
  model covers the code units \<open>0x00\<close> to \<open>0xFF\<close> (Latin-1). \<open>String.prototype.trim\<close> and the
  regular-expression class \<open>\s\<close> agree on which code units are white space; in this range
  they are TAB, LF, VT, FF, CR, SPACE and NO-BREAK SPACE.
\<close>

definition isWhiteSpace :: "char \<Rightarrow> bool" where
  "isWhiteSpace c \<longleftrightarrow>
     c = CHR 0x09 \<or> c = CHR 0x0A \<or> c = CHR 0x0B \<or> c = CHR 0x0C \<or> c = CHR 0x0D \<or>
     c = CHR 0x20 \<or> c = CHR 0xA0"

text \<open>\<open>s.trim()\<close>\<close>

definition trim :: "string \<Rightarrow> string" where
  "trim s = rev (dropWhile isWhiteSpace (rev (dropWhile isWhiteSpace s)))"

text \<open>
  \<open>s.toLowerCase()\<close>: in Latin-1 the letters with a lower-case partner are \<open>A\<close> to \<open>Z\<close> and
  \<open>0xC0\<close> to \<open>0xDE\<close> without the multiplication sign \<open>0xD7\<close>; the partner is \<open>0x20\<close> higher.
\<close>

definition lowerChar :: "char \<Rightarrow> char" where
  "lowerChar c =
     (let n = (of_char c :: nat)
      in if (65 \<le> n \<and> n \<le> 90) \<or> (192 \<le> n \<and> n \<le> 222 \<and> n \<noteq> 215)
         then char_of (n + 32) else c)"

definition toLowerCase :: "string \<Rightarrow> string" where
  "toLowerCase s = map lowerChar s"

text \<open>
  \<open>s.split(c)\<close> for a one-character separator: a character that is not the separator goes in
  front of the first piece of the rest. The result is never empty (\<open>''''.split(c)\<close> is
  \<open>['''']\<close>), so the first branch of the \<open>case\<close> is never taken.
\<close>

fun splitOn :: "char \<Rightarrow> string \<Rightarrow> string list" where
  "splitOn c [] = [[]]"
| "splitOn c (x # xs) =
     (if x = c then [] # splitOn c xs
      else (case splitOn c xs of
              [] \<Rightarrow> [[x]]
            | l # ls \<Rightarrow> (x # l) # ls))"

text \<open>\<open>s.split('/').pop()\<close>: the text after the last slash.\<close>

definition lastSegment :: "string \<Rightarrow> string" where
  "lastSegment s = last (splitOn CHR ''/'' s)"

text \<open>\<open>s.startsWith(p)\<close>, \<open>s.endsWith(p)\<close> and \<open>s.includes(p)\<close>\<close>

fun startsWith :: "string \<Rightarrow> string \<Rightarrow> bool" where
  "startsWith s [] = True"
| "startsWith [] (p # ps) = False"
| "startsWith (c # s) (p # ps) = (c = p \<and> startsWith s ps)"

definition endsWith :: "string \<Rightarrow> string \<Rightarrow> bool" where
  "endsWith s p = startsWith (rev s) (rev p)"

fun includesStr :: "string \<Rightarrow> string \<Rightarrow> bool" where
  "includesStr [] p = (p = [])"
| "includesStr (c # s) p = (startsWith (c # s) p \<or> includesStr s p)"

text \<open>
  \<open>s.replace(/\.[^.]+$/, '''')\<close>: the search runs from the left; the pattern matches at a dot that
  is followed by at least one character and by no further dot up to the end of the string, and
  the match, which reaches the end, is removed.
\<close>

fun stripExtension :: "string \<Rightarrow> string" where
  "stripExtension [] = []"
| "stripExtension (c # s) =
     (if c = CHR ''.'' \<and> s \<noteq> [] \<and> CHR ''.'' \<notin> set s then [] else c # stripExtension s)"

text \<open>\<open>s.replace(/^\.\//, '''')\<close> and \<open>s.replace(/^\//, '''')\<close>\<close>

fun stripDotSlash :: "string \<Rightarrow> string" where
  "stripDotSlash (a # b # s) = (if a = CHR ''.'' \<and> b = CHR ''/'' then s else a # b # s)"
| "stripDotSlash s = s"

fun stripSlash :: "string \<Rightarrow> string" where
  "stripSlash (a # s) = (if a = CHR ''/'' then s else a # s)"
| "stripSlash [] = []"

section \<open>The image index\<close>

text \<open>
  \<open>this.images\<close> is a JavaScript \<open>Map\<close> from key to blob URL. A \<open>Map\<close> iterates in insertion
  order and \<open>set\<close> on a key that is present replaces the value where the key stands, which is
  \<^const>\<open>AList.update\<close> on an association list; \<open>has\<close> and \<open>get\<close> are \<^const>\<open>map_of\<close>.
\<close>

type_synonym imageIndex = "(string \<times> string) list"

text \<open>
  The five \<open>this.images.set\<close> calls that \<open>extractContents\<close> makes for one image file
  (\<open>path\<close> in the archive, \<open>url\<close> the blob URL created for it).
\<close>

definition registerImage :: "imageIndex \<Rightarrow> string \<Rightarrow> string \<Rightarrow> imageIndex" where
  "registerImage images path url =
     (let fullName = lastSegment path;
          baseName = toLowerCase fullName;
          images1 = AList.update fullName url images;
          images2 = AList.update baseName url images1;
          images3 = AList.update path url images2;
          nameWithoutExt = stripExtension fullName;
          images4 = AList.update nameWithoutExt url images3
      in AList.update (toLowerCase nameWithoutExt) url images4)"

section \<open>The image resolver\<close>

text \<open>The loop over \<open>attempts\<close>: the first key the map has decides.\<close>

fun tryAttempts :: "imageIndex \<Rightarrow> string list \<Rightarrow> string option" where
  "tryAttempts images [] = None"
| "tryAttempts images (attempt # rest) =
     (case map_of images attempt of
        Some url \<Rightarrow> Some url
      | None \<Rightarrow> tryAttempts images rest)"

text \<open>The loop over \<open>this.images.entries()\<close>, in insertion order.\<close>

fun partialMatch :: "string \<Rightarrow> imageIndex \<Rightarrow> string option" where
  "partialMatch fileName [] = None"
| "partialMatch fileName ((key, url) # rest) =
     (if includesStr key fileName \<or> includesStr fileName (lastSegment key) then Some url
      else partialMatch fileName rest)"

definition attemptsOf :: "string \<Rightarrow> string list" where
  "attemptsOf src =
     (let cleanSrc = stripSlash (stripDotSlash src);
          fileName = lastSegment cleanSrc;
          baseName = toLowerCase fileName
      in [src, cleanSrc, fileName, baseName, stripExtension fileName, stripExtension baseName])"

text \<open>\<open>findImageUrl(src)\<close>; \<open>None\<close> is the \<open>null\<close> it returns when nothing matches.\<close>

definition findImageUrl :: "imageIndex \<Rightarrow> string \<Rightarrow> string option" where
  "findImageUrl images src =
     (let cleanSrc = stripSlash (stripDotSlash src);
          fileName = lastSegment cleanSrc
      in case tryAttempts images (attemptsOf src) of
           Some url \<Rightarrow> Some url
         | None \<Rightarrow> partialMatch fileName images)"

section \<open>The parsed document\<close>

text \<open>
  The nodes of the XML document that \<open>DOMParser\<close> builds: an element carries its tag name as
  written in the source (an XML document keeps the case), its attributes by qualified name and
  its child nodes in document order.
\<close>

datatype node =
    Element string "(string \<times> string) list" "node list"
  | Text string
  | CData string
  | Comment string

fun tagNameOf :: "node \<Rightarrow> string" where
  "tagNameOf (Element t as kids) = t"
| "tagNameOf n = []"

fun childNodes :: "node \<Rightarrow> node list" where
  "childNodes (Element t as kids) = kids"
| "childNodes n = []"

text \<open>\<open>node.nodeType === Node.ELEMENT_NODE\<close> and \<open>node.nodeType === Node.TEXT_NODE\<close>\<close>

fun isElement :: "node \<Rightarrow> bool" where
  "isElement (Element t as kids) = True"
| "isElement n = False"

fun isText :: "node \<Rightarrow> bool" where
  "isText (Text s) = True"
| "isText n = False"

text \<open>\<open>element.children\<close>: the child nodes that are elements.\<close>

definition children :: "node \<Rightarrow> node list" where
  "children element = filter isElement (childNodes element)"

text \<open>
  \<open>node.textContent\<close>: for an element the data of its text and CDATA descendants in document
  order (comments do not count), for a character-data node its own data.
\<close>

fun descendantText :: "node \<Rightarrow> string" where
  "descendantText (Element t as kids) = concat (map descendantText kids)"
| "descendantText (Text s) = s"
| "descendantText (CData s) = s"
| "descendantText (Comment s) = []"

fun textContent :: "node \<Rightarrow> string" where
  "textContent (Comment s) = s"
| "textContent n = descendantText n"

text \<open>\<open>element.getAttribute(name)\<close>; \<open>None\<close> is \<open>null\<close>.\<close>

fun getAttribute :: "node \<Rightarrow> string \<Rightarrow> string option" where
  "getAttribute (Element t as kids) name = map_of as name"
| "getAttribute n name = None"

text \<open>A value that is \<open>null\<close> or a string is truthy when it is a non-empty string.\<close>

fun truthy :: "string option \<Rightarrow> bool" where
  "truthy None = False"
| "truthy (Some s) = (s \<noteq> [])"

subsection \<open>Selectors\<close>

text \<open>
  Every selector in the program is a list of type selectors. A type selector names the local
  name of an element, the part of the tag name after the namespace prefix. In an XML document,
  which is what \<open>parseFromString(content, 'text/xml')\<close> returns, the comparison of names is
  case-sensitive (the DOM standard lower-cases the selector for HTML elements in HTML
  documents only).
\<close>

definition localName :: "string \<Rightarrow> string" where
  "localName t = (if CHR '':'' \<in> set t then tl (dropWhile (\<lambda>c. c \<noteq> CHR '':'') t) else t)"

definition matchesType :: "string list \<Rightarrow> node \<Rightarrow> bool" where
  "matchesType names n \<longleftrightarrow> isElement n \<and> localName (tagNameOf n) \<in> set names"

text \<open>
  The element descendants of an element in document order, each with the tag names of its
  ancestors, nearest first; \<open>anc\<close> holds the tag names of the ancestors of the element itself.
\<close>

fun descendantsOf :: "string list \<Rightarrow> node \<Rightarrow> (string list \<times> node) list" where
  "descendantsOf anc (Element t as kids) =
     concat (map (\<lambda>k. if isElement k then (t # anc, k) # descendantsOf (t # anc) k else []) kids)"
| "descendantsOf anc n = []"

text \<open>\<open>element.querySelectorAll('a, b')\<close> and \<open>element.querySelector('a, b')\<close>\<close>

definition querySelectorAll :: "string list \<Rightarrow> string list \<Rightarrow> node \<Rightarrow> (string list \<times> node) list"
  where
  "querySelectorAll names anc element =
     filter (\<lambda>(a, d). matchesType names d) (descendantsOf anc element)"

definition querySelector :: "string list \<Rightarrow> node \<Rightarrow> node option" where
  "querySelector names element =
     (case querySelectorAll names [] element of [] \<Rightarrow> None | (a, d) # rest \<Rightarrow> Some d)"

text \<open>\<open>element.querySelectorAll(':scope > a, :scope > b')\<close>\<close>

definition scopeChildren :: "string list \<Rightarrow> node \<Rightarrow> node list" where
  "scopeChildren names element = filter (matchesType names) (childNodes element)"

text \<open>\<open>row.closest('a')\<close> as a truth value: the row itself or one of its ancestors matches.\<close>

definition closest :: "string \<Rightarrow> string list \<Rightarrow> node \<Rightarrow> bool" where
  "closest name anc element \<longleftrightarrow>
     localName (tagNameOf element) = name \<or> name \<in> set (map localName anc)"

section \<open>HTML escaping\<close>

text \<open>
  \<open>escapeHtml(text)\<close> sets \<open>text\<close> as the text content of a fresh \<open>div\<close> of the HTML page and
  reads the \<open>innerHTML\<close> of the \<open>div\<close> back. The \<open>div\<close> then has one text node (none when \<open>text\<close>
  is empty), and the HTML fragment serialisation of a text node escapes its data outside of
  attribute mode: \<open>&\<close> becomes \<open>&amp;\<close>, NO-BREAK SPACE becomes \<open>&nbsp;\<close>, \<open><\<close> becomes \<open>&lt;\<close>
  and \<open>>\<close> becomes \<open>&gt;\<close>; every other character stands for itself.
\<close>

definition escapeChar :: "char \<Rightarrow> string" where
  "escapeChar c =
     (if c = CHR ''&'' then ''&amp;''
      else if c = CHR 0xA0 then ''&nbsp;''
      else if c = CHR ''<'' then ''&lt;''
      else if c = CHR ''>'' then ''&gt;''
      else [c])"

definition innerHTML :: "node list \<Rightarrow> string" where
  "innerHTML kids = concat (map (\<lambda>k. concat (map escapeChar (textContent k))) kids)"

definition escapeHtml :: "string \<Rightarrow> string" where
  "escapeHtml text = innerHTML (if text = [] then [] else [Text text])"

section \<open>The element renderer\<close>

subsection \<open>Images\<close>

text \<open>The loop over \<open>srcAttrs\<close>: the first attribute with a truthy value.\<close>

fun firstAttribute :: "node \<Rightarrow> string list \<Rightarrow> string option" where
  "firstAttribute element [] = None"
| "firstAttribute element (attr # rest) =
     (let v = getAttribute element attr
      in if truthy v then v else firstAttribute element rest)"

text \<open>The value of \<open>imageSrc\<close> when \<open>renderImage\<close> tests it.\<close>

definition imageSource :: "node \<Rightarrow> string option" where
  "imageSource element =
     (let imageSrc0 =
            firstAttribute element
              [''src'', ''href'', ''url'', ''source'', ''file'', ''path'', ''xlink:href''];
          imageSrc1 =
            (if \<not> truthy imageSrc0 then
               (case querySelector [''source'', ''src'', ''file'', ''path''] element of
                  Some sourceEl \<Rightarrow>
                    (if trim (textContent sourceEl) \<noteq> [] then Some (trim (textContent sourceEl))
                     else getAttribute sourceEl ''src'')
                | None \<Rightarrow> imageSrc0)
             else imageSrc0)
      in if \<not> truthy imageSrc1 \<and> length (childNodes element) = 1 \<and>
            isText (hd (childNodes element))
         then Some (trim (textContent element))
         else imageSrc1)"

text \<open>
  \<open>element.getAttribute(name) || other\<close> with a string \<open>other\<close>, and the value of \<open>caption\<close>.
\<close>

definition attributeOr :: "node \<Rightarrow> string \<Rightarrow> string \<Rightarrow> string" where
  "attributeOr element name other =
     (case getAttribute element name of
        Some v \<Rightarrow> if v \<noteq> [] then v else other
      | None \<Rightarrow> other)"

definition imageCaption :: "node \<Rightarrow> string" where
  "imageCaption element =
     (case querySelector [''caption'', ''figcaption'', ''title'', ''alt''] element of
        Some captionEl \<Rightarrow> textContent captionEl
      | None \<Rightarrow> attributeOr element ''alt'' (attributeOr element ''title'' []))"

definition newline :: string where
  "newline = [CHR 0x0A]"

definition spaces :: "nat \<Rightarrow> string" where
  "spaces n = replicate n CHR '' ''"

definition imageNotFound :: "string \<Rightarrow> string" where
  \<open>imageNotFound imageSrc = ''<div class="image-error">Image not found: '' @ escapeHtml imageSrc @ ''</div>''\<close>

definition imageContainer :: "string \<Rightarrow> string \<Rightarrow> string" where
  \<open>imageContainer imageUrl caption =
     newline @ spaces 16 @ ''<div class="xml-image-container">'' @
     newline @ spaces 20 @ ''<img class="xml-image" src="'' @ imageUrl @ ''" alt="'' @
       escapeHtml caption @ ''" loading="lazy">'' @
     newline @ spaces 20 @
       (if caption \<noteq> [] then ''<div class="xml-image-caption">'' @ escapeHtml caption @ ''</div>''
        else []) @
     newline @ spaces 16 @ ''</div>'' @
     newline @ spaces 12\<close>

definition renderImage :: "imageIndex \<Rightarrow> node \<Rightarrow> string" where
  \<open>renderImage images element =
     (case imageSource element of
        None \<Rightarrow> ''<div class="image-error">Image source not found</div>''
      | Some imageSrc \<Rightarrow>
          if imageSrc = [] then ''<div class="image-error">Image source not found</div>''
          else
            (let imageUrl = findImageUrl images imageSrc;
                 caption = imageCaption element
             in case imageUrl of
                  Some url \<Rightarrow>
                    if url \<noteq> [] then imageContainer url caption else imageNotFound imageSrc
                | None \<Rightarrow> imageNotFound imageSrc))\<close>

subsection \<open>Unknown tags\<close>

text \<open>\<open>hasBlockElements(element)\<close>: the loop over \<open>element.children\<close>.\<close>

definition blockTags :: "string list" where
  "blockTags =
     [''p'', ''para'', ''paragraph'', ''div'', ''section'', ''table'', ''ul'', ''ol'', ''list'',
      ''h1'', ''h2'', ''h3'', ''h4'', ''h5'', ''h6'', ''title'', ''heading'', ''blockquote'',
      ''figure'', ''image'', ''img'']"

fun hasBlockIn :: "node list \<Rightarrow> bool" where
  "hasBlockIn [] = False"
| "hasBlockIn (child # rest) =
     (if toLowerCase (tagNameOf child) \<in> set blockTags then True else hasBlockIn rest)"

definition hasBlockElements :: "node \<Rightarrow> bool" where
  "hasBlockElements element = hasBlockIn (children element)"

subsection \<open>The tree walk\<close>

text \<open>
  \<open>renderElement\<close>, \<open>renderChildren\<close>, \<open>renderTable\<close> and \<open>renderList\<close> call each other.
  \<open>anc\<close> holds the tag names of the ancestors of \<open>element\<close>, nearest first, which is what
  \<open>row.closest\<close> walks through. \<open>renderTable\<close> computes \<open>thead\<close> and \<open>tbody\<close> and never uses
  them; they are left out. The recursion ends because every call on another node is on a child
  or a descendant, which is smaller.
\<close>

lemma childNodes_size: "n \<in> set (childNodes e) \<Longrightarrow> size n < size e"
  by (cases e) (auto simp: less_Suc_eq_le size_list_estimation')

lemma descendantsOf_size: "(a, d) \<in> set (descendantsOf anc e) \<Longrightarrow> size d < size e"
proof (induction anc e arbitrary: a d rule: descendantsOf.induct)
  case (1 anc t as kids)
  then obtain k where k: "k \<in> set kids" "isElement k"
    and d: "(a, d) = (t # anc, k) \<or> (a, d) \<in> set (descendantsOf (t # anc) k)"
    by (auto split: if_splits)
  have "size k < size (Element t as kids)"
    using k(1) by (auto simp: less_Suc_eq_le size_list_estimation')
  moreover have "size d \<le> size k"
    using d "1.IH" [OF k(1) k(2)] by (auto simp: less_imp_le)
  ultimately show ?case by simp
qed simp_all

lemma querySelectorAll_size:
  "(a, d) \<in> set (querySelectorAll names anc e) \<Longrightarrow> size d < size e"
  by (auto simp: querySelectorAll_def dest: descendantsOf_size)

lemma querySelectorAll_nth_size:
  "i < length (querySelectorAll names anc e) \<Longrightarrow> querySelectorAll names anc e ! i = (a, d) \<Longrightarrow>
   size d < size e"
  using querySelectorAll_size [of a d names anc e] nth_mem [of i "querySelectorAll names anc e"]
  by simp

lemma scopeChildren_size: "n \<in> set (scopeChildren names e) \<Longrightarrow> size n < size e"
  by (auto simp: scopeChildren_def dest: childNodes_size)

function renderElement :: "imageIndex \<Rightarrow> string list \<Rightarrow> node \<Rightarrow> string"
  and renderChildren :: "imageIndex \<Rightarrow> string list \<Rightarrow> node \<Rightarrow> string"
  and renderTable :: "imageIndex \<Rightarrow> string list \<Rightarrow> node \<Rightarrow> string"
  and renderList :: "imageIndex \<Rightarrow> string list \<Rightarrow> node \<Rightarrow> string \<Rightarrow> string"
where
  \<open>renderElement images anc element =
     (let tagName = toLowerCase (tagNameOf element)
      in if tagName \<in> set [''img'', ''image'', ''figure'', ''graphic'', ''picture''] then
           renderImage images element
         else if tagName = ''table'' then
           renderTable images anc element
         else if tagName \<in> set [''ul'', ''ol'', ''list''] then
           renderList images anc element (if tagName = ''ol'' then ''ol'' else ''ul'')
         else if tagName \<in> set [''li'', ''item'', ''listitem''] then
           ''<li class="xml-list-item">'' @ renderChildren images anc element @ ''</li>''
         else if tagName \<in> set [''title'', ''heading'', ''h1''] then
           ''<h1 class="xml-title">'' @ renderChildren images anc element @ ''</h1>''
         else if tagName \<in> set [''h2'', ''subtitle''] then
           ''<h2 class="xml-h2">'' @ renderChildren images anc element @ ''</h2>''
         else if tagName = ''h3'' then
           ''<h3 class="xml-h3">'' @ renderChildren images anc element @ ''</h3>''
         else if tagName \<in> set [''p'', ''para'', ''paragraph'', ''text''] then
           ''<p class="xml-paragraph">'' @ renderChildren images anc element @ ''</p>''
         else if tagName \<in> set [''b'', ''bold'', ''strong''] then
           ''<strong class="xml-bold">'' @ renderChildren images anc element @ ''</strong>''
         else if tagName \<in> set [''i'', ''italic'', ''em'', ''emphasis''] then
           ''<em class="xml-italic">'' @ renderChildren images anc element @ ''</em>''
         else if tagName \<in> set [''u'', ''underline''] then
           ''<u class="xml-underline">'' @ renderChildren images anc element @ ''</u>''
         else if tagName \<in> set [''code'', ''pre'', ''programlisting''] then
           ''<code class="xml-code">'' @ escapeHtml (textContent element) @ ''</code>''
         else if tagName \<in> set [''blockquote'', ''quote''] then
           ''<blockquote class="xml-blockquote">'' @ renderChildren images anc element @
           ''</blockquote>''
         else if tagName \<in> set [''a'', ''link'', ''xref''] then
           ''<a class="xml-link" href="'' @
           escapeHtml (attributeOr element ''href'' (attributeOr element ''url'' ''#'')) @
           ''" target="_blank">'' @ renderChildren images anc element @ ''</a>''
         else if tagName \<in> set [''br'', ''break'', ''linebreak''] then
           ''<br>''
         else if tagName \<in> set [''hr'', ''separator'', ''pagebreak'', ''page-break''] then
           ''<div class="xml-page-break"></div>''
         else if tagName \<in> set [''section'', ''div'', ''block'', ''chapter''] then
           ''<div class="xml-section">'' @ renderChildren images anc element @ ''</div>''
         else if tagName = ''header'' then
           ''<div class="xml-header">'' @ renderChildren images anc element @ ''</div>''
         else if tagName = ''footer'' then
           ''<div class="xml-footer">'' @ renderChildren images anc element @ ''</div>''
         else if tagName \<in> set [''caption'', ''figcaption''] then
           ''<div class="xml-image-caption">'' @ renderChildren images anc element @ ''</div>''
         else if tagName \<in> set [''span'', ''inline''] then
           ''<span class="xml-element">'' @ renderChildren images anc element @ ''</span>''
         else if hasBlockElements element \<or> length (children element) > 0 then
           ''<div class="xml-element-block" data-tag="'' @ tagName @ ''">'' @
           renderChildren images anc element @ ''</div>''
         else if trim (renderChildren images anc element) \<noteq> [] then
           ''<span class="xml-element" data-tag="'' @ tagName @ ''">'' @
           renderChildren images anc element @ ''</span>''
         else [])\<close>
| \<open>renderChildren images anc element =
     concat (map (\<lambda>node.
        if isText node then
          (if trim (textContent node) \<noteq> [] then escapeHtml (textContent node) else [])
        else if isElement node then
          renderElement images (tagNameOf element # anc) node
        else [])
       (childNodes element))\<close>
| \<open>renderTable images anc element =
     ''<table class="xml-table">'' @
     (let rows = querySelectorAll [''tr'', ''row''] anc element
      in if rows = [] then
           (let entries = querySelectorAll [''entry'', ''cell'', ''td'', ''th''] anc element
            in if entries \<noteq> [] then
                 ''<tbody><tr>'' @
                 concat (map (\<lambda>(a, entry). ''<td>'' @ renderChildren images a entry @ ''</td>'')
                   entries) @
                 ''</tr></tbody>''
               else [])
         else
           concat (map (\<lambda>(index, a, row).
              (let cells = querySelectorAll [''td'', ''th'', ''cell'', ''entry''] a row;
                   isHeader = (closest ''thead'' a row \<or> closest ''header'' a row \<or>
                               (index = 0 \<and> querySelector [''th''] row \<noteq> None))
               in ''<tr>'' @
                  concat (map (\<lambda>(ca, cell).
                     (let tag = (if isHeader \<or> toLowerCase (tagNameOf cell) = ''th''
                                 then ''th'' else ''td'')
                      in ''<'' @ tag @ ''>'' @ renderChildren images ca cell @
                         ''</'' @ tag @ ''>''))
                    cells) @
                  ''</tr>''))
             (enumerate 0 rows))) @
     ''</table>''\<close>
| \<open>renderList images anc element listType =
     (let items = scopeChildren [''li'', ''item'', ''listitem''] element
      in ''<'' @ listType @ '' class="xml-list">'' @
         (if items \<noteq> [] then
            concat (map (\<lambda>item.
               ''<li class="xml-list-item">'' @
               renderChildren images (tagNameOf element # anc) item @ ''</li>'')
              items)
          else renderChildren images anc element) @
         ''</'' @ listType @ ''>'')\<close>
  by pat_completeness auto


termination
  apply (relation "measure (\<lambda>x. case x of
            Inl (Inl (images, anc, e)) \<Rightarrow> 3 * size e + 2
          | Inl (Inr (images, anc, e)) \<Rightarrow> 3 * size e
          | Inr (Inl (images, anc, e)) \<Rightarrow> 3 * size e + 1
          | Inr (Inr (images, anc, e, l)) \<Rightarrow> 3 * size e + 1)")
  apply (auto dest!: childNodes_size querySelectorAll_size scopeChildren_size
              dest: querySelectorAll_nth_size simp: in_set_enumerate_eq)
  done


declare renderElement.simps [simp del] renderChildren.simps [simp del]
  renderTable.simps [simp del] renderList.simps [simp del]


section \<open>The raw view\<close>

text \<open>
  \<open>xml.replace(/>\s*</g, '>\n<')\<close>: the search runs from the left; at a \<open>></\<close>, white space
  is skipped, and when a \<open><\<close> follows, the three are replaced and the search goes on behind
  the \<open><\<close>.
\<close>

function replaceTagGaps :: "string \<Rightarrow> string" where
  "replaceTagGaps [] = []"
| "replaceTagGaps (c # s) =
     (if c = CHR ''>'' \<and> startsWith (dropWhile isWhiteSpace s) ''<''
      then ''>'' @ newline @ ''<'' @ replaceTagGaps (tl (dropWhile isWhiteSpace s))
      else c # replaceTagGaps s)"
  by pat_completeness auto
termination
proof (relation "measure length")
  show "wf (measure length)" by simp
next
  fix c :: char and s :: string
  assume "c = CHR ''>'' \<and> startsWith (dropWhile isWhiteSpace s) ''<''"
  have "length (tl (dropWhile isWhiteSpace s)) \<le> length (dropWhile isWhiteSpace s)" by simp
  also have "\<dots> \<le> length s" by (rule length_dropWhile_le)
  finally show "(tl (dropWhile isWhiteSpace s), c # s) \<in> measure length" by simp
next
  fix c :: char and s :: string
  show "(s, c # s) \<in> measure length" by simp
qed

text \<open>\<open>'  '.repeat(indent)\<close>\<close>

definition indentation :: "int \<Rightarrow> string" where
  "indentation indent = concat (replicate (nat indent) ''  '')"

text \<open>The loop over \<open>lines\<close>, with the variables \<open>formatted\<close> and \<open>indent\<close>.\<close>

fun formatLines :: "string list \<Rightarrow> string \<Rightarrow> int \<Rightarrow> string" where
  "formatLines [] formatted indent = formatted"
| "formatLines (l # rest) formatted indent =
     (let line = trim l
      in if line = [] then formatLines rest formatted indent
         else
           (let indent1 = (if startsWith line ''</'' then max 0 (indent - 1) else indent);
                formatted1 = formatted @ indentation indent1 @ line @ newline;
                indent2 =
                  (if startsWith line ''<'' \<and> \<not> startsWith line ''</'' \<and>
                      \<not> startsWith line ''<?'' \<and> \<not> startsWith line ''<!'' \<and>
                      \<not> endsWith line ''/>'' \<and> \<not> includesStr line ''</''
                   then indent1 + 1 else indent1)
            in formatLines rest formatted1 indent2))"

definition formatXML :: "string \<Rightarrow> string" where
  "formatXML xml = trim (formatLines (splitOn CHR 0x0A (replaceTagGaps xml)) [] 0)"

section \<open>The viewer\<close>

text \<open>
  An entry of \<open>zip.files\<close>, with what the asynchronous and browser calls on it give:
  \<open>entryText\<close> is the result of \<open>async('text')\<close>, \<open>entryDocument\<close> the document element of
  the document that \<open>parseFromString\<close> builds from that text, and \<open>entryBlobUrl\<close> the URL that
  \<open>URL.createObjectURL\<close> returns for the result of \<open>async('blob')\<close>.
\<close>

record zipEntry =
  entryPath :: string
  entryDir :: bool
  entryText :: string
  entryDocument :: node
  entryBlobUrl :: string

text \<open>
  The uploaded file: its name and what \<open>JSZip.loadAsync\<close> makes of it, the entries in the
  order of \<open>Object.entries(zip.files)\<close>, or the message of the error it rejects with.
\<close>

record upload =
  uploadName :: string
  uploadZip :: "string + zipEntry list"

record xmlFile =
  xmlName :: string
  xmlPath :: string
  xmlContent :: string
  xmlParsed :: node
  xmlHasError :: bool

text \<open>
  Each of \<open>showLoading\<close>, \<open>showPreview\<close>, \<open>showError\<close> and \<open>reset\<close> sets the \<open>display\<close> of all
  five sections, so that exactly one of four is shown.
\<close>

datatype panel = UploadSection | LoadingSection | PreviewSection | ErrorSection

text \<open>
  The fields of \<open>XMLViewer\<close> and the page state it writes. \<open>blobUrls\<close> is the blob URL store
  of the browser: the URLs created and not revoked. The options of the document selector
  repeat \<open>xmlFiles\<close> and are not modelled.
\<close>

record viewer =
  xmlFiles :: "xmlFile list"
  currentXmlIndex :: nat
  images :: imageIndex
  shown :: panel
  errorMessage :: string
  fileNameText :: string
  renderedView :: string
  rawView :: string
  blobUrls :: "string list"

definition showLoading :: "viewer \<Rightarrow> viewer" where
  "showLoading v = v\<lparr>shown := LoadingSection\<rparr>"

definition showPreview :: "viewer \<Rightarrow> viewer" where
  "showPreview v = v\<lparr>shown := PreviewSection\<rparr>"

definition showError :: "string \<Rightarrow> viewer \<Rightarrow> viewer" where
  "showError message v = v\<lparr>shown := ErrorSection, errorMessage := message\<rparr>"

definition renderCurrentXML :: "viewer \<Rightarrow> viewer" where
  \<open>renderCurrentXML v =
     (if currentXmlIndex v < length (xmlFiles v) then
        (let xmlFile = xmlFiles v ! currentXmlIndex v
         in v\<lparr>renderedView :=
                 ''<div class="xml-document">'' @
                 renderElement (images v) [] (xmlParsed xmlFile) @ ''</div>'',
               rawView := formatXML (xmlContent xmlFile)\<rparr>)
      else v)\<close>

text \<open>\<open>path.split('/').pop().toLowerCase().split('.').pop()\<close>\<close>

definition extensionOf :: "string \<Rightarrow> string" where
  "extensionOf path = last (splitOn CHR ''.'' (toLowerCase (lastSegment path)))"

definition isXmlEntry :: "zipEntry \<Rightarrow> bool" where
  "isXmlEntry entry \<longleftrightarrow> \<not> entryDir entry \<and> extensionOf (entryPath entry) = ''xml''"

definition isImageEntry :: "zipEntry \<Rightarrow> bool" where
  "isImageEntry entry \<longleftrightarrow>
     \<not> entryDir entry \<and>
     extensionOf (entryPath entry) \<in>
       set [''jpg'', ''jpeg'', ''png'', ''gif'', ''bmp'', ''svg'', ''webp'', ''tiff'', ''tif'']"

text \<open>
  \<open>xmlFiles.sort\<close> is stable; \<open>le a b\<close> stands for
  \<open>a.localeCompare(b, undefined, {numeric: true}) <= 0\<close>, which depends on the locale.
\<close>

fun insertByName :: "(string \<Rightarrow> string \<Rightarrow> bool) \<Rightarrow> zipEntry \<Rightarrow> zipEntry list \<Rightarrow> zipEntry list"
  where
  "insertByName le x [] = [x]"
| "insertByName le x (y # ys) =
     (if le (lastSegment (entryPath x)) (lastSegment (entryPath y)) then x # y # ys
      else y # insertByName le x ys)"

definition sortByName :: "(string \<Rightarrow> string \<Rightarrow> bool) \<Rightarrow> zipEntry list \<Rightarrow> zipEntry list" where
  "sortByName le entries = foldr (insertByName le) entries []"

text \<open>\<open>parsed.querySelector('parsererror')\<close> on the document reaches the document element too.\<close>

definition hasParseError :: "node \<Rightarrow> bool" where
  "hasParseError root \<longleftrightarrow>
     matchesType [''parsererror''] root \<or> querySelector [''parsererror''] root \<noteq> None"

definition toXmlFile :: "zipEntry \<Rightarrow> xmlFile" where
  "toXmlFile entry =
     \<lparr>xmlName = lastSegment (entryPath entry), xmlPath = entryPath entry,
      xmlContent = entryText entry, xmlParsed = entryDocument entry,
      xmlHasError = hasParseError (entryDocument entry)\<rparr>"

text \<open>The loop over \<open>imageFiles\<close>.\<close>

fun extractImages :: "viewer \<Rightarrow> zipEntry list \<Rightarrow> viewer" where
  "extractImages v [] = v"
| "extractImages v (entry # rest) =
     extractImages
       (v\<lparr>blobUrls := blobUrls v @ [entryBlobUrl entry],
          images := registerImage (images v) (entryPath entry) (entryBlobUrl entry)\<rparr>)
       rest"

text \<open>
  \<open>extractContents(zip)\<close>, with the entries of \<open>zip.files\<close> in \<open>archive\<close>; \<open>Inl\<close> carries the
  message of the error it throws.
\<close>

definition extractContents ::
  "(string \<Rightarrow> string \<Rightarrow> bool) \<Rightarrow> viewer \<Rightarrow> zipEntry list \<Rightarrow> string + viewer" where
  "extractContents le v archive =
     (let xmlEntries = filter isXmlEntry archive;
          imageEntries = filter isImageEntry archive
      in if xmlEntries = [] then Inl ''No XML file found in the ZIP''
         else
           (let v1 = v\<lparr>xmlFiles := map toXmlFile (sortByName le xmlEntries)\<rparr>;
                v2 = extractImages v1 imageEntries
            in Inr (renderCurrentXML (v2\<lparr>currentXmlIndex := 0\<rparr>))))"

text \<open>\<open>processFile(file)\<close>\<close>

definition processFile :: "(string \<Rightarrow> string \<Rightarrow> bool) \<Rightarrow> viewer \<Rightarrow> upload \<Rightarrow> viewer" where
  "processFile le v file =
     (if \<not> endsWith (uploadName file) ''.zip'' then showError ''Please upload a ZIP file'' v
      else
        (let v1 = (showLoading v)\<lparr>fileNameText := uploadName file\<rparr>
         in case uploadZip file of
              Inl message \<Rightarrow> showError (''Failed to process ZIP file: '' @ message) v1
            | Inr archive \<Rightarrow>
                (case extractContents le v1 archive of
                   Inl message \<Rightarrow> showError (''Failed to process ZIP file: '' @ message) v1
                 | Inr v2 \<Rightarrow> showPreview v2)))"

text \<open>\<open>reset()\<close>: the loop that revokes the URLs of \<open>this.images.values()\<close>, then the rest.\<close>

fun revokeAll :: "string list \<Rightarrow> string list \<Rightarrow> string list" where
  "revokeAll store [] = store"
| "revokeAll store (url # rest) = revokeAll (removeAll url store) rest"

definition reset :: "viewer \<Rightarrow> viewer" where
  "reset v =
     v\<lparr>blobUrls := revokeAll (blobUrls v) (map snd (images v)),
       images := [], xmlFiles := [], currentXmlIndex := 0,
       shown := UploadSection, renderedView := [], rawView := []\<rparr>"

text \<open>The state that the constructor leaves.\<close>

definition newViewer :: viewer where
  "newViewer =
     \<lparr>xmlFiles = [], currentXmlIndex = 0, images = [], shown = UploadSection,
      errorMessage = [], fileNameText = [], renderedView = [], rawView = [], blobUrls = []\<rparr>"

section \<open>The lines of the raw view\<close>

text \<open>
  Notions for reasoning about \<^const>\<open>formatXML\<close>. The indentation that the loop writes in front
  of a line and the indentation it goes on with:
\<close>

definition lineIndent :: "string \<Rightarrow> int \<Rightarrow> int" where
  "lineIndent line indent = (if startsWith line ''</'' then max 0 (indent - 1) else indent)"

definition indentAfter :: "string \<Rightarrow> int \<Rightarrow> int" where
  "indentAfter line indent =
     (if startsWith line ''<'' \<and> \<not> startsWith line ''</'' \<and> \<not> startsWith line ''<?'' \<and>
         \<not> startsWith line ''<!'' \<and> \<not> endsWith line ''/>'' \<and> \<not> includesStr line ''</''
      then lineIndent line indent + 1 else lineIndent line indent)"

text \<open>
  A string has no gap when no \<open>></\<close> in it is followed by white space and a \<open><\<close>, so that
  \<^const>\<open>replaceTagGaps\<close> finds nothing to replace inside it. A clean line is what the loop
  writes: not empty, trimmed, without a line feed and without a gap. The lines of a text are
  the non-empty trimmed pieces between its line feeds, and the lines of an XML text those of
  the text after the replacement.
\<close>

fun noGap :: "string \<Rightarrow> bool" where
  "noGap [] = True"
| "noGap (c # s) =
     ((c = CHR ''>'' \<longrightarrow> \<not> startsWith (dropWhile isWhiteSpace s) ''<'') \<and> noGap s)"

definition cleanLine :: "string \<Rightarrow> bool" where
  "cleanLine l \<longleftrightarrow>
     l \<noteq> [] \<and> \<not> isWhiteSpace (hd l) \<and> \<not> isWhiteSpace (last l) \<and> CHR 0x0A \<notin> set l \<and> noGap l"

definition trimmedLines :: "string \<Rightarrow> string list" where
  "trimmedLines s = filter (\<lambda>l. l \<noteq> []) (map trim (splitOn CHR 0x0A s))"

definition linesOf :: "string \<Rightarrow> string list" where
  "linesOf xml = trimmedLines (replaceTagGaps xml)"

section \<open>The resolver in the words of its description\<close>

text \<open>
  The description of the resolver, for comparison with \<^const>\<open>findImageUrl\<close>: strip one leading
  \<open>./\<close> and one leading \<open>/\<close>, take the text after the last slash as the file name, look the six
  candidates up in order, and otherwise scan the entries for the first one whose key contains
  the file name or whose last path segment is contained in the file name.
\<close>

definition stripLeading :: "string \<Rightarrow> string \<Rightarrow> string" where
  "stripLeading p s = (if take (length p) s = p then drop (length p) s else s)"

definition afterLastSlash :: "string \<Rightarrow> string" where
  "afterLastSlash s = rev (takeWhile (\<lambda>c. c \<noteq> CHR ''/'') (rev s))"

definition withoutFinalExtension :: "string \<Rightarrow> string" where
  "withoutFinalExtension s =
     (let ext = takeWhile (\<lambda>c. c \<noteq> CHR ''.'') (rev s)
      in if ext \<noteq> [] \<and> length ext < length s then rev (drop (Suc (length ext)) (rev s))
         else s)"

definition containsText :: "string \<Rightarrow> string \<Rightarrow> bool" where
  "containsText s p \<longleftrightarrow> (\<exists>before after. s = before @ p @ after)"

definition resolveSpec :: "string \<Rightarrow> imageIndex \<Rightarrow> string option" where
  "resolveSpec reference idx =
     (let cleanRef = stripLeading ''/'' (stripLeading ''./'' reference);
          fileName = afterLastSlash cleanRef;
          lookups =
            [reference, cleanRef, fileName, toLowerCase fileName,
             withoutFinalExtension fileName, withoutFinalExtension (toLowerCase fileName)]
      in case List.find (\<lambda>key. map_of idx key \<noteq> None) lookups of
           Some key \<Rightarrow> map_of idx key
         | None \<Rightarrow>
             map_option snd
               (List.find (\<lambda>(key, handle).
                    containsText key fileName \<or> containsText fileName (afterLastSlash key))
                  idx))"

section \<open>The tags of the dispatch\<close>

text \<open>
  The \<open>case\<close> labels of the \<open>switch\<close> in \<open>renderElement\<close>, and those among them that lead to
  \<open>renderImage\<close>.
\<close>

definition knownTags :: "string list" where
  "knownTags =
     [''img'', ''image'', ''figure'', ''graphic'', ''picture'', ''table'', ''ul'', ''ol'', ''list'',
      ''li'', ''item'', ''listitem'', ''title'', ''heading'', ''h1'', ''h2'', ''subtitle'', ''h3'',
      ''p'', ''para'', ''paragraph'', ''text'', ''b'', ''bold'', ''strong'', ''i'', ''italic'',
      ''em'', ''emphasis'', ''u'', ''underline'', ''code'', ''pre'', ''programlisting'',
      ''blockquote'', ''quote'', ''a'', ''link'', ''xref'', ''br'', ''break'', ''linebreak'', ''hr'',
      ''separator'', ''pagebreak'', ''page-break'', ''section'', ''div'', ''block'', ''chapter'',
      ''header'', ''footer'', ''caption'', ''figcaption'', ''span'', ''inline'']"

definition imageTags :: "string list" where
  "imageTags = [''img'', ''image'', ''figure'', ''graphic'', ''picture'']"



section \<open>The keys of an image file and sample archives\<close>


text \<open>An image entry of an archive.\<close>

definition asset :: "string \<Rightarrow> string \<Rightarrow> zipEntry" where
  "asset path url =
     \<lparr>entryPath = path, entryDir = False, entryText = [], entryDocument = Text [],
      entryBlobUrl = url\<rparr>"

text \<open>An XML entry, an order of names for the sort, and two archives.\<close>

definition document :: "string \<Rightarrow> string \<Rightarrow> node \<Rightarrow> zipEntry" where
  "document path content root =
     \<lparr>entryPath = path, entryDir = False, entryText = content, entryDocument = root,
      entryBlobUrl = []\<rparr>"

definition anyOrder :: "string \<Rightarrow> string \<Rightarrow> bool" where
  "anyOrder a b = True"

definition overlappingUpload :: upload where
  "overlappingUpload =
     \<lparr>uploadName = ''one.zip'',
      uploadZip = Inr [document ''a.xml'' ''<doc/>'' (Element ''doc'' [] []),
                       asset ''a.png'' ''blob:1'',
                       asset ''dir/a.png'' ''blob:2'']\<rparr>"

definition secondUpload :: upload where
  "secondUpload =
     \<lparr>uploadName = ''two.zip'',
      uploadZip = Inr [document ''b.xml'' ''<doc/>'' (Element ''doc'' [] []),
                       asset ''b.png'' ''blob:3'']\<rparr>"

section \<open>Facts about strings\<close>

lemmas lower_eval = toLowerCase_def lowerChar_def char_of_def bit_Suc_0_iff

lemma splitOn_nonempty: "splitOn c s \<noteq> []"
  by (induction s) (auto split: list.splits)

lemma splitOn_Cons_neq:
  "x \<noteq> c \<Longrightarrow> splitOn c (x # xs) = (x # hd (splitOn c xs)) # tl (splitOn c xs)"
  by (cases "splitOn c xs") (simp_all add: splitOn_nonempty)

lemma splitOn_single: "tl (splitOn c s) = [] \<longleftrightarrow> c \<notin> set s"
  by (induction s) (auto simp: splitOn_nonempty split: list.splits)

lemma last_splitOn: "last (splitOn c s) = rev (takeWhile (\<lambda>x. x \<noteq> c) (rev s))"
proof (induction s)
  case Nil
  show ?case by simp
next
  case (Cons x xs)
  show ?case
  proof (cases "x = c")
    case True
    then show ?thesis using Cons by (simp add: splitOn_nonempty takeWhile_append)
  next
    case False
    note step = splitOn_Cons_neq [OF False, of xs]
    show ?thesis
    proof (cases "c \<in> set xs")
      case True
      then have "tl (splitOn c xs) \<noteq> []" by (simp add: splitOn_single)
      then have "last ((x # hd (splitOn c xs)) # tl (splitOn c xs)) = last (splitOn c xs)"
        by (metis last_ConsR last_tl splitOn_nonempty)
      with True False Cons show ?thesis
        by (auto simp del: splitOn.simps simp: step takeWhile_append)
    next
      case False
      then have t: "tl (splitOn c xs) = []" by (simp add: splitOn_single)
      then have "hd (splitOn c xs) = last (splitOn c xs)"
        by (cases "splitOn c xs") (auto simp: splitOn_nonempty)
      moreover have "takeWhile (\<lambda>x. x \<noteq> c) (rev xs) = rev xs"
        using False by (auto simp: takeWhile_eq_all_conv)
      ultimately show ?thesis
        using t False \<open>x \<noteq> c\<close> Cons
        by (auto simp del: splitOn.simps simp: step takeWhile_append)
    qed
  qed
qed

lemma lastSegment_empty_iff: "lastSegment s = [] \<longleftrightarrow> s = [] \<or> last s = CHR ''/''"
  by (cases s rule: rev_cases) (auto simp: lastSegment_def last_splitOn)

lemma includesStr_Nil [simp]: "includesStr s [] = True"
  by (cases s) auto

lemma stripSlash_empty_or_slash:
  "s = [] \<or> last s = CHR ''/'' \<Longrightarrow> stripSlash s = [] \<or> last (stripSlash s) = CHR ''/''"
  by (cases s) (auto split: if_splits)

lemma stripDotSlash_empty_or_slash:
  "s = [] \<or> last s = CHR ''/'' \<Longrightarrow>
   stripDotSlash s = [] \<or> last (stripDotSlash s) = CHR ''/''"
  by (cases s rule: stripDotSlash.cases) (auto split: if_splits)

lemma clean_empty_or_slash:
  "src = [] \<or> last src = CHR ''/'' \<Longrightarrow>
   stripSlash (stripDotSlash src) = [] \<or> last (stripSlash (stripDotSlash src)) = CHR ''/''"
  by (intro stripSlash_empty_or_slash stripDotSlash_empty_or_slash)

lemma tryAttempts_Some: "tryAttempts idx as = Some url \<Longrightarrow> url \<in> snd ` set idx"
  by (induction as) (auto split: option.splits dest!: map_of_SomeD intro: rev_image_eqI)

section \<open>Resolution of a reference without a file name\<close>

text \<open>
  C10. When the image index is not empty and the reference is empty or ends with a slash, the
  file name that \<open>findImageUrl\<close> computes is empty and \<open>findImageUrl\<close> does not return
  \<open>null\<close>: it returns the URL of a registered entry, and when all six exact lookups miss, the
  partial matching returns the URL of the first entry of the index in iteration order, because
  every key includes the empty string.
\<close>

theorem empty_fileName_always_resolves:
  assumes "idx \<noteq> []" and "reference = [] \<or> last reference = CHR ''/''"
  shows "lastSegment (stripSlash (stripDotSlash reference)) = [] \<and>
         (\<exists>url. findImageUrl idx reference = Some url \<and> url \<in> snd ` set idx) \<and>
         (tryAttempts idx (attemptsOf reference) = None \<longrightarrow>
            findImageUrl idx reference = Some (snd (hd idx)))"
proof -
  have fn: "lastSegment (stripSlash (stripDotSlash reference)) = []"
    using clean_empty_or_slash [OF assms(2)] by (simp add: lastSegment_empty_iff)
  obtain key url rest where im: "idx = (key, url) # rest"
    using assms(1) by (cases idx) auto
  have pm: "partialMatch [] idx = Some url" by (simp add: im)
  show ?thesis
  proof (cases "tryAttempts idx (attemptsOf reference)")
    case None
    then show ?thesis using fn pm im by (simp add: findImageUrl_def)
  next
    case (Some u)
    then show ?thesis using fn tryAttempts_Some [OF Some] by (simp add: findImageUrl_def)
  qed
qed

theorem empty_fileName_always_resolves_witness:
  "findImageUrl [(''a.png'', ''blob:1'')] ''img/'' = Some ''blob:1''"
  using empty_fileName_always_resolves [of "[(''a.png'', ''blob:1'')]" "''img/''"]
  by (simp add: attemptsOf_def)


section \<open>The resolver against its description\<close>

lemma stripDotSlash_spec: "stripDotSlash s = stripLeading ''./'' s"
  by (cases s rule: stripDotSlash.cases) (auto simp: stripLeading_def)

lemma stripSlash_spec: "stripSlash s = stripLeading ''/'' s"
  by (cases s) (auto simp: stripLeading_def)

lemma lastSegment_spec: "lastSegment s = afterLastSlash s"
  by (simp add: lastSegment_def afterLastSlash_def last_splitOn)

lemma stripExtension_keep:
  "CHR ''.'' \<notin> set s \<or> last s = CHR ''.'' \<Longrightarrow> stripExtension s = s"
proof (induction s)
  case Nil
  show ?case by simp
next
  case (Cons c s)
  show ?case
  proof (cases "s = []")
    case True
    then show ?thesis by simp
  next
    case False
    with Cons.prems have "CHR ''.'' \<notin> set s \<or> last s = CHR ''.''" by auto
    moreover from this False have "c = CHR ''.'' \<Longrightarrow> CHR ''.'' \<in> set s"
      using Cons.prems last_in_set [of s] by auto
    ultimately show ?thesis using Cons.IH by auto
  qed
qed

lemma stripExtension_cut:
  "e \<noteq> [] \<Longrightarrow> CHR ''.'' \<notin> set e \<Longrightarrow> stripExtension (p @ CHR ''.'' # e) = p"
  by (induction p) auto

lemma stripExtension_spec: "stripExtension s = withoutFinalExtension s"
proof -
  define ext where "ext = takeWhile (\<lambda>c. c \<noteq> CHR ''.'') (rev s)"
  define rest where "rest = dropWhile (\<lambda>c. c \<noteq> CHR ''.'') (rev s)"
  have split: "rev s = ext @ rest" by (simp add: ext_def rest_def)
  have nodot: "CHR ''.'' \<notin> set ext"
    unfolding ext_def by (auto dest: set_takeWhileD)
  show ?thesis
  proof (cases rest)
    case Nil
    then have "rev s = ext" using split by simp
    then have "CHR ''.'' \<notin> set s" and "length ext = length s"
      using nodot by (metis set_rev, metis length_rev)
    then show ?thesis
      by (simp add: withoutFinalExtension_def ext_def [symmetric] stripExtension_keep)
  next
    case (Cons d r)
    have d: "d = CHR ''.''"
      using Cons hd_dropWhile [of "\<lambda>c. c \<noteq> CHR ''.''" "rev s"] by (simp add: rest_def)
    have "rev (rev s) = rev (ext @ CHR ''.'' # r)"
      using split Cons d by simp
    then have s: "s = rev r @ CHR ''.'' # rev ext" by simp
    show ?thesis
    proof (cases "ext = []")
      case True
      then have "last s = CHR ''.''" using s by simp
      then show ?thesis
        using True by (simp add: withoutFinalExtension_def ext_def [symmetric] stripExtension_keep)
    next
      case False
      have "stripExtension s = rev r"
        using stripExtension_cut [of "rev ext" "rev r"] False nodot s by simp
      have "drop (Suc (length ext)) (rev s) = r"
        using split Cons by simp
      moreover have "length ext < length s"
        using s by simp
      ultimately have "withoutFinalExtension s = rev r"
        using False unfolding withoutFinalExtension_def ext_def [symmetric] by simp
      then show ?thesis using \<open>stripExtension s = rev r\<close> by simp
    qed
  qed
qed

lemma startsWith_spec: "startsWith s p \<longleftrightarrow> (\<exists>after. s = p @ after)"
  by (induction s p rule: startsWith.induct) auto

lemma includesStr_spec: "includesStr s p \<longleftrightarrow> containsText s p"
proof (induction s)
  case Nil
  show ?case by (auto simp: containsText_def)
next
  case (Cons c s)
  have "containsText (c # s) p \<longleftrightarrow> (\<exists>after. c # s = p @ after) \<or> containsText s p"
    unfolding containsText_def
  proof
    assume "\<exists>before after. c # s = before @ p @ after"
    then obtain before after where eq: "c # s = before @ p @ after" by blast
    show "(\<exists>after. c # s = p @ after) \<or> (\<exists>before after. s = before @ p @ after)"
    proof (cases before)
      case Nil
      then show ?thesis using eq by auto
    next
      case (Cons b bs)
      then have "s = bs @ p @ after" using eq by simp
      then show ?thesis by blast
    qed
  next
    assume "(\<exists>after. c # s = p @ after) \<or> (\<exists>before after. s = before @ p @ after)"
    then show "\<exists>before after. c # s = before @ p @ after"
    proof
      assume "\<exists>after. c # s = p @ after"
      then obtain after where "c # s = [] @ p @ after" by auto
      then show ?thesis by blast
    next
      assume "\<exists>before after. s = before @ p @ after"
      then obtain before after where "c # s = (c # before) @ p @ after" by auto
      then show ?thesis by blast
    qed
  qed
  then show ?case using Cons by (simp add: startsWith_spec)
qed

lemma tryAttempts_spec:
  "tryAttempts idx as =
     (case List.find (\<lambda>key. map_of idx key \<noteq> None) as of
        Some key \<Rightarrow> map_of idx key | None \<Rightarrow> None)"
  by (induction as) (auto split: option.splits)

lemma partialMatch_spec:
  "partialMatch fileName idx =
     map_option snd
       (List.find (\<lambda>(key, handle).
            containsText key fileName \<or> containsText fileName (afterLastSlash key)) idx)"
proof (induction idx)
  case Nil
  show ?case by simp
next
  case (Cons entry idx)
  obtain key url where "entry = (key, url)" by (cases entry)
  then show ?case using Cons by (simp add: includesStr_spec lastSegment_spec)
qed



lemma findImageUrl_spec: "findImageUrl idx reference = resolveSpec reference idx"
  unfolding findImageUrl_def resolveSpec_def attemptsOf_def Let_def tryAttempts_spec
    partialMatch_spec stripDotSlash_spec stripSlash_spec lastSegment_spec stripExtension_spec
  by (simp split: option.splits)

lemma scenarioA:
  "findImageUrl (registerImage [] ''multimedia/photo.png'' url) ''multimedia/photo.PNG'' = Some url"
  by code_simp

text \<open>
  C4. For every reference and index, \<open>findImageUrl\<close> computes what the description says:
  \<open>cleanRef\<close> by stripping one leading \<open>./\<close> and then one leading \<open>/\<close>, \<open>fileName\<close> as the
  text after the last slash, the exact lookups of the reference, \<open>cleanRef\<close>, \<open>fileName\<close>, the
  lower-cased \<open>fileName\<close>, \<open>fileName\<close> without its final extension and the lower-cased
  \<open>fileName\<close> without its final extension, in this order, with the first hit returned; then
  the first entry in iteration order whose key contains \<open>fileName\<close> or whose last path segment
  is contained in \<open>fileName\<close>; and \<open>null\<close> otherwise. The reference
  \<open>multimedia/photo.PNG\<close> resolves to the image registered at \<open>multimedia/photo.png\<close>.
\<close>

theorem resolve_order:
  "findImageUrl idx reference = resolveSpec reference idx \<and>
   findImageUrl (registerImage [] ''multimedia/photo.png'' url) ''multimedia/photo.PNG'' = Some url"
  using findImageUrl_spec scenarioA by blast

section \<open>The keys of the image index\<close>










section \<open>HTML escaping and quotes\<close>

text \<open>
  C1. \<open>escapeHtml\<close> leaves the double and the single quote as they are, also where the result
  is put between the double quotes of an attribute value: an \<open>href\<close> with a double quote in it
  ends the attribute early and the rest of the value becomes markup of the page.
\<close>

theorem escapeHtml_keeps_quotes:
  \<open>escapeHtml ''"'' = ''"'' \<and> escapeHtml [CHR 0x27] = [CHR 0x27] \<and>
   renderElement [] [] (Element ''a'' [(''href'', ''x" onclick="alert(1)'')] [Text ''t'']) =
     ''<a class="xml-link" href="x" onclick="alert(1)" target="_blank">t</a>''\<close>
  by code_simp


section \<open>Tag names and case\<close>

text \<open>
  C3. The dispatch of \<open>renderElement\<close> lower-cases the tag name, the selectors that pick rows
  and cells compare it as written: a table with rows and cells in upper case renders empty,
  and the same table in lower case renders its row.
\<close>

theorem selectors_are_case_sensitive:
  \<open>renderElement [] [] (Element ''table'' [] [Element ''TR'' [] [Element ''TD'' [] [Text ''x'']]]) =
     ''<table class="xml-table"></table>'' \<and>
   renderElement [] [] (Element ''table'' [] [Element ''tr'' [] [Element ''td'' [] [Text ''x'']]]) =
     ''<table class="xml-table"><tr><td>x</td></tr></table>''\<close>
  by code_simp


section \<open>The dispatch\<close>

lemma renderElement_image:
  "toLowerCase (tagNameOf element) \<in> set imageTags \<Longrightarrow>
   renderElement idx anc element = renderImage idx element"
  by (simp add: renderElement.simps [of idx anc element] imageTags_def Let_def)

lemma renderElement_unknown:
  assumes "toLowerCase (tagNameOf element) \<notin> set knownTags"
  shows "renderElement idx anc element =
     (if hasBlockElements element \<or> length (children element) > 0 then
        ''<div class=\"xml-element-block\" data-tag=\"'' @ toLowerCase (tagNameOf element) @ ''\">'' @
        renderChildren idx anc element @ ''</div>''
      else if trim (renderChildren idx anc element) \<noteq> [] then
        ''<span class=\"xml-element\" data-tag=\"'' @ toLowerCase (tagNameOf element) @ ''\">'' @
        renderChildren idx anc element @ ''</span>''
      else [])"
  using assms
  by (simp add: renderElement.simps [of idx anc element] knownTags_def Let_def)


lemma hasBlockIn_iff:
  "hasBlockIn xs \<longleftrightarrow> (\<exists>child\<in>set xs. toLowerCase (tagNameOf child) \<in> set blockTags)"
  by (induction xs) auto


section \<open>Unknown tags\<close>

text \<open>
  C7 as the program has it. For every element whose lower-cased tag name is no label of the
  \<open>switch\<close>: when the element has a child element, or a child element with a tag of the block
  set (only children are looked at), the result is the block wrapper around the rendered
  children; otherwise, when the rendered children are not blank, the inline wrapper around
  them; otherwise the empty string. Both wrappers carry the lower-cased tag name.
\<close>

theorem unknown_tag_rendering:
  assumes \<open>toLowerCase (tagNameOf element) \<notin> set knownTags\<close>
  shows \<open>renderElement idx anc element =
     (if children element \<noteq> [] \<or>
         (\<exists>child\<in>set (children element). toLowerCase (tagNameOf child) \<in> set blockTags)
      then ''<div class="xml-element-block" data-tag="'' @ toLowerCase (tagNameOf element) @ ''">'' @
           renderChildren idx anc element @ ''</div>''
      else if trim (renderChildren idx anc element) \<noteq> []
      then ''<span class="xml-element" data-tag="'' @ toLowerCase (tagNameOf element) @ ''">'' @
           renderChildren idx anc element @ ''</span>''
      else [])\<close>
proof -
  have "hasBlockElements element \<or> length (children element) > 0 \<longleftrightarrow>
        children element \<noteq> [] \<or>
        (\<exists>child\<in>set (children element). toLowerCase (tagNameOf child) \<in> set blockTags)"
    by (auto simp: hasBlockElements_def hasBlockIn_iff)
  then show ?thesis
    using renderElement_unknown [OF assms, of idx anc] by simp
qed

theorem unknown_tag_rendering_witness:
  \<open>renderElement [] [] (Element ''foo'' [] [Text ''hello'']) =
     ''<span class="xml-element" data-tag="foo">hello</span>'' \<and>
   renderElement [] [] (Element ''foo'' [] [Element ''p'' [] [Text ''x'']]) =
     ''<div class="xml-element-block" data-tag="foo"><p class="xml-paragraph">x</p></div>'' \<and>
   renderElement [] [] (Element ''foo'' [] [Text '' '']) = []\<close>
proof -
  have unknown: "toLowerCase ''foo'' \<notin> set knownTags"
    by (simp add: knownTags_def lower_eval)
  have c1: "renderChildren [] [] (Element ''foo'' [] [Text ''hello'']) = ''hello''"
    by code_simp
  have c2: "renderChildren [] [] (Element ''foo'' [] [Element ''p'' [] [Text ''x'']]) =
            ''<p class=\"xml-paragraph\">x</p>''"
    by code_simp
  have c3: "renderChildren [] [] (Element ''foo'' [] [Text '' '']) = []"
    by code_simp
  have t: "trim ''hello'' \<noteq> []" by code_simp
  show ?thesis
    using unknown_tag_rendering [of "Element ''foo'' [] [Text ''hello'']" "[]" "[]"]
      unknown_tag_rendering [of "Element ''foo'' [] [Element ''p'' [] [Text ''x'']]" "[]" "[]"]
      unknown_tag_rendering [of "Element ''foo'' [] [Text '' '']" "[]" "[]"]
      unknown c1 c2 c3 t
    by (simp add: children_def lower_eval trim_def)
qed


text \<open>The wrapper of \<open><Foo>\<close> carries \<open>foo\<close>, not the tag name as written.\<close>

theorem original_case_is_not_kept:
  \<open>renderElement [] [] (Element ''Foo'' [] [Text ''hello'']) =
     ''<span class="xml-element" data-tag="foo">hello</span>'' \<and>
   renderElement [] [] (Element ''Foo'' [] [Text ''hello'']) \<noteq>
     ''<span class="xml-element" data-tag="Foo">hello</span>''\<close>
  by code_simp


section \<open>The caption of an image\<close>

lemma find_filter: "(case filter P xs of [] \<Rightarrow> None | x # rest \<Rightarrow> Some x) = List.find P xs"
  by (induction xs) auto











section \<open>Images that cannot be shown\<close>

lemma escapeHtml_chars: "escapeHtml text = concat (map escapeChar text)"
  by (simp add: escapeHtml_def innerHTML_def)

lemma escapeChar_cases:
  "escapeChar =
     (\<lambda>c. if c = CHR ''&'' then ''&amp;''
          else if c = CHR 0xA0 then ''&nbsp;''
          else if c = CHR ''<'' then ''&lt;''
          else if c = CHR ''>'' then ''&gt;''
          else [c])"
  by (rule ext) (simp add: escapeChar_def)

lemma escapeHtml_no_angle:
  "CHR ''<'' \<notin> set (escapeHtml s) \<and> CHR ''>'' \<notin> set (escapeHtml s)"
  by (induction s) (auto simp: escapeHtml_chars escapeChar_def)

text \<open>
  C8. For every image-like element: when no reference is found, \<open>renderElement\<close> returns the
  marker \<open>Image source not found\<close>; when a reference is found and \<open>findImageUrl\<close> returns
  \<open>null\<close>, it returns the marker with the reference in it, where \<open>&\<close>, \<open><\<close>, \<open>>\<close> and the
  no-break space of the reference stand as \<open>&amp;\<close>, \<open>&lt;\<close>, \<open>&gt;\<close> and \<open>&nbsp;\<close>, so that no
  angle bracket of the reference reaches the output. \<open>renderElement\<close> is a total function, so
  the walk goes on: the parent renders what stands before the image, then the marker, then
  what stands after it, each as it does without the image.
\<close>

theorem image_failures_are_local:
  assumes \<open>toLowerCase (tagNameOf element) \<in> set imageTags\<close>
  shows \<open>(\<not> truthy (imageSource element) \<longrightarrow>
            renderElement idx anc element =
              ''<div class="image-error">Image source not found</div>'') \<and>
         (\<forall>imageSrc. imageSource element = Some imageSrc \<and> imageSrc \<noteq> [] \<and>
              findImageUrl idx imageSrc = None \<longrightarrow>
            renderElement idx anc element =
              ''<div class="image-error">Image not found: '' @
              concat (map (\<lambda>c. if c = CHR ''&'' then ''&amp;''
                                else if c = CHR 0xA0 then ''&nbsp;''
                                else if c = CHR ''<'' then ''&lt;''
                                else if c = CHR ''>'' then ''&gt;''
                                else [c]) imageSrc) @
              ''</div>'' \<and>
            renderElement idx anc element =
              ''<div class="image-error">Image not found: '' @ escapeHtml imageSrc @ ''</div>'' \<and>
            CHR ''<'' \<notin> set (escapeHtml imageSrc) \<and> CHR ''>'' \<notin> set (escapeHtml imageSrc)) \<and>
         renderChildren idx anc (Element t as (before @ element # after)) =
           renderChildren idx anc (Element t as before) @
           renderElement idx (t # anc) element @
           renderChildren idx anc (Element t as after)\<close>
proof -
  have render: "\<And>a. renderElement idx a element = renderImage idx element"
    using assms by (rule renderElement_image)
  have "tagNameOf element \<noteq> []"
    using assms by (auto simp: imageTags_def toLowerCase_def)
  then have el: "isElement element" "\<not> isText element"
    by (cases element; simp)+
  have none: "\<not> truthy (imageSource element) \<longrightarrow>
      renderImage idx element = ''<div class=\"image-error\">Image source not found</div>''"
    by (cases "imageSource element") (auto simp: renderImage_def)
  have miss: "\<forall>imageSrc. imageSource element = Some imageSrc \<and> imageSrc \<noteq> [] \<and>
        findImageUrl idx imageSrc = None \<longrightarrow>
      renderImage idx element =
        ''<div class=\"image-error\">Image not found: '' @ escapeHtml imageSrc @ ''</div>''"
    by (auto simp: renderImage_def imageNotFound_def)
  have esc: "\<And>imageSrc. escapeHtml imageSrc =
      concat (map (\<lambda>c. if c = CHR ''&'' then ''&amp;''
                        else if c = CHR 0xA0 then ''&nbsp;''
                        else if c = CHR ''<'' then ''&lt;''
                        else if c = CHR ''>'' then ''&gt;''
                        else [c]) imageSrc)"
    by (simp only: escapeHtml_chars escapeChar_cases)
  have around: "renderChildren idx anc (Element t as (before @ element # after)) =
      renderChildren idx anc (Element t as before) @
      renderElement idx (t # anc) element @
      renderChildren idx anc (Element t as after)"
    using el by (simp add: renderChildren.simps cong: if_cong)
  show ?thesis
    using none miss around escapeHtml_no_angle
    by (simp only: render esc [symmetric]) blast
qed

theorem image_failures_are_local_witness:
  \<open>renderElement [] [] (Element ''image'' [(''src'', ''a<b>&c.png'')] []) =
     ''<div class="image-error">Image not found: a&lt;b&gt;&amp;c.png</div>'' \<and>
   renderElement [] [] (Element ''image'' [] []) =
     ''<div class="image-error">Image source not found</div>'' \<and>
   renderChildren [] []
     (Element ''section'' []
        [Element ''p'' [] [Text ''a''], Element ''image'' [(''src'', ''a<b>&c.png'')] [],
         Element ''p'' [] [Text ''b'']]) =
     ''<p class="xml-paragraph">a</p><div class="image-error">Image not found: a&lt;b&gt;&amp;c.png</div><p class="xml-paragraph">b</p>''\<close>
proof -
  let ?e1 = "Element ''image'' [(''src'', ''a<b>&c.png'')] []"
  let ?e2 = "Element ''image'' [] []"
  have tag: "toLowerCase (tagNameOf ?e1) \<in> set imageTags"
    "toLowerCase (tagNameOf ?e2) \<in> set imageTags"
    by (simp_all add: imageTags_def lower_eval)
  have s1: "imageSource ?e1 = Some ''a<b>&c.png''" by code_simp
  have s2: "\<not> truthy (imageSource ?e2)" by code_simp
  have f: "findImageUrl [] ''a<b>&c.png'' = None" by code_simp
  have ra: "renderChildren [] [] (Element ''section'' [] [Element ''p'' [] [Text ''a'']]) =
            ''<p class=\"xml-paragraph\">a</p>''"
    by code_simp
  have rb: "renderChildren [] [] (Element ''section'' [] [Element ''p'' [] [Text ''b'']]) =
            ''<p class=\"xml-paragraph\">b</p>''"
    by code_simp
  note t1 = image_failures_are_local [OF tag(1), of "[]" "[]" "''section''" "[]"
      "[Element ''p'' [] [Text ''a'']]" "[Element ''p'' [] [Text ''b'']]"]
  note t1' = image_failures_are_local [OF tag(1), of "[]" "[''section'']" "''section''" "[]"
      "[Element ''p'' [] [Text ''a'']]" "[Element ''p'' [] [Text ''b'']]"]
  note t2 = image_failures_are_local [OF tag(2), of "[]" "[]" "''section''" "[]" "[]" "[]"]
  have m1: "renderElement [] [] ?e1 =
      ''<div class=\"image-error\">Image not found: a&lt;b&gt;&amp;c.png</div>''"
    using t1 s1 f by simp
  have m1': "renderElement [] [''section''] ?e1 =
      ''<div class=\"image-error\">Image not found: a&lt;b&gt;&amp;c.png</div>''"
    using t1' s1 f by simp
  have m2: "renderElement [] [] ?e2 = ''<div class=\"image-error\">Image source not found</div>''"
    using t2 s2 by simp
  have m3: "renderChildren [] []
     (Element ''section'' []
        ([Element ''p'' [] [Text ''a'']] @ ?e1 # [Element ''p'' [] [Text ''b'']])) =
     ''<p class=\"xml-paragraph\">a</p>'' @
     ''<div class=\"image-error\">Image not found: a&lt;b&gt;&amp;c.png</div>'' @
     ''<p class=\"xml-paragraph\">b</p>''"
    using t1 by (simp only: ra rb m1')
  show ?thesis using m1 m2 m3 by simp
qed


section \<open>Loading and resetting\<close>

lemma set_revokeAll: "set (revokeAll store urls) = set store - set urls"
  by (induction urls arbitrary: store) auto

lemma blobUrls_extractImages:
  "blobUrls (extractImages v es) = blobUrls v @ map entryBlobUrl es"
  by (induction es arbitrary: v) simp_all

text \<open>
  \<open>reset\<close> revokes the URLs that the index holds at that moment, and no others; every image
  entry adds its URL to the store, whether the index keeps it or not.
\<close>

lemma blobUrls_reset: "set (blobUrls (reset v)) = set (blobUrls v) - snd ` set (images v)"
  by (simp add: reset_def set_revokeAll)

text \<open>
  C5. An archive with \<open>a.png\<close> and, after it, \<open>dir/a.png\<close>: the second file takes over every
  key of the first, so after the load the index holds the URL of the second file only, while
  the store holds both URLs. \<open>reset\<close> revokes what the index holds: the URL created for
  \<open>a.png\<close> is not released, and it is still in the store when the next archive has been
  loaded.
\<close>

theorem reset_leaves_overwritten_url_live:
  "blobUrls (processFile anyOrder newViewer overlappingUpload) = [''blob:1'', ''blob:2''] \<and>
   images (processFile anyOrder newViewer overlappingUpload) =
     [(''a.png'', ''blob:2''), (''a'', ''blob:2''), (''dir/a.png'', ''blob:2'')] \<and>
   blobUrls (reset (processFile anyOrder newViewer overlappingUpload)) = [''blob:1''] \<and>
   blobUrls (processFile anyOrder (reset (processFile anyOrder newViewer overlappingUpload))
      secondUpload) = [''blob:1'', ''blob:3'']"
  by code_simp


section \<open>Formatting twice\<close>

subsection \<open>White space and trimming\<close>

lemma ws_newline [simp]: "isWhiteSpace CHR 0x0A"
  by (simp add: isWhiteSpace_def)

lemma ws_space [simp]: "isWhiteSpace CHR '' ''"
  by (simp add: isWhiteSpace_def)

lemma ws_not_gt [simp]: "\<not> isWhiteSpace CHR ''>''"
  by (simp add: isWhiteSpace_def)

lemma ws_not_lt [simp]: "\<not> isWhiteSpace CHR ''<''"
  by (simp add: isWhiteSpace_def)

lemma startsWith_lt: "startsWith s ''<'' \<longleftrightarrow> (\<exists>t. s = CHR ''<'' # t)"
  by (cases s) auto

lemma dropWhile_keep: "xs \<noteq> [] \<Longrightarrow> \<not> P (hd xs) \<Longrightarrow> dropWhile P xs = xs"
  by (cases xs) auto

lemma dropWhile_all: "\<forall>c\<in>set w. P c \<Longrightarrow> dropWhile P w = []"
  by simp

lemma dropWhile_prepend: "\<forall>c\<in>set w. P c \<Longrightarrow> dropWhile P (w @ r) = dropWhile P r"
  by (induction w) simp_all

lemma trim_decompose:
  "\<exists>w1 w2. s = w1 @ trim s @ w2 \<and> (\<forall>c\<in>set w1. isWhiteSpace c) \<and> (\<forall>c\<in>set w2. isWhiteSpace c)"
proof -
  define m where "m = dropWhile isWhiteSpace s"
  define w1 where "w1 = takeWhile isWhiteSpace s"
  define w2 where "w2 = rev (takeWhile isWhiteSpace (rev m))"
  have 1: "s = w1 @ m" by (simp add: m_def w1_def)
  have "rev (takeWhile isWhiteSpace (rev m) @ dropWhile isWhiteSpace (rev m)) = m"
    by (simp only: takeWhile_dropWhile_id rev_rev_ident)
  then have 2: "m = trim s @ w2"
    by (simp only: rev_append trim_def m_def w2_def)
  have 3: "\<forall>c\<in>set w1. isWhiteSpace c"
    by (auto simp: w1_def dest: set_takeWhileD)
  have 4: "\<forall>c\<in>set w2. isWhiteSpace c"
    by (auto simp: w2_def dest: set_takeWhileD)
  from 1 2 have "s = w1 @ trim s @ w2" by simp
  with 3 4 show ?thesis by blast
qed

lemma trim_ws_only: "\<forall>c\<in>set w. isWhiteSpace c \<Longrightarrow> trim w = []"
proof -
  assume "\<forall>c\<in>set w. isWhiteSpace c"
  then have "dropWhile isWhiteSpace w = []" by (rule dropWhile_all)
  then show ?thesis by (simp only: trim_def rev.simps dropWhile.simps)
qed

lemma trim_prepend_ws: "\<forall>c\<in>set w. isWhiteSpace c \<Longrightarrow> trim (w @ s) = trim s"
  by (simp only: trim_def dropWhile_prepend)

lemma trim_append_ws:
  assumes w: "\<forall>c\<in>set w. isWhiteSpace c"
  shows "trim (s @ w) = trim s"
proof (cases "\<forall>c\<in>set s. isWhiteSpace c")
  case True
  then have "\<forall>c\<in>set (s @ w). isWhiteSpace c" using w by auto
  then have "trim (s @ w) = []" by (rule trim_ws_only)
  moreover have "trim s = []" using True by (rule trim_ws_only)
  ultimately show ?thesis by simp
next
  case False
  then have "dropWhile isWhiteSpace (s @ w) = dropWhile isWhiteSpace s @ w"
    by (auto simp: dropWhile_append)
  moreover have "dropWhile isWhiteSpace (rev w @ r) = dropWhile isWhiteSpace r" for r
    using w by (intro dropWhile_prepend) simp
  ultimately show ?thesis by (simp only: trim_def rev_append)
qed

lemma trim_clean: "l \<noteq> [] \<Longrightarrow> \<not> isWhiteSpace (hd l) \<Longrightarrow> \<not> isWhiteSpace (last l) \<Longrightarrow> trim l = l"
proof -
  assume a: "l \<noteq> []" "\<not> isWhiteSpace (hd l)" "\<not> isWhiteSpace (last l)"
  then have "dropWhile isWhiteSpace l = l" by (intro dropWhile_keep)
  moreover have "dropWhile isWhiteSpace (rev l) = rev l"
    using a by (intro dropWhile_keep) (simp_all add: hd_rev)
  ultimately show ?thesis by (simp only: trim_def rev_rev_ident)
qed

lemma trim_ends:
  assumes "trim s \<noteq> []"
  shows "\<not> isWhiteSpace (hd (trim s)) \<and> \<not> isWhiteSpace (last (trim s))"
proof -
  define m where "m = dropWhile isWhiteSpace s"
  define r where "r = dropWhile isWhiteSpace (rev m)"
  have t: "trim s = rev r" by (simp only: trim_def m_def r_def)
  have r: "r \<noteq> []" using assms t by simp
  have hr: "\<not> isWhiteSpace (hd r)" unfolding r_def using r [unfolded r_def] by (rule hd_dropWhile)
  have m: "m \<noteq> []"
  proof
    assume "m = []"
    then have "r = []" by (simp only: r_def rev.simps dropWhile.simps)
    with r show False by simp
  qed
  have hm: "\<not> isWhiteSpace (hd m)" unfolding m_def using m [unfolded m_def] by (rule hd_dropWhile)
  obtain w where mw: "rev m = w @ r" and w: "\<forall>c\<in>set w. isWhiteSpace c"
    using takeWhile_dropWhile_id [of isWhiteSpace "rev m"] set_takeWhileD [of _ isWhiteSpace "rev m"]
    unfolding r_def by metis
  have "m = rev r @ rev w" using mw by (metis rev_append rev_rev_ident)
  then have "hd m = hd (rev r)" using r by simp
  then have "\<not> isWhiteSpace (hd (trim s))" using hm t by simp
  moreover have "\<not> isWhiteSpace (last (trim s))" using hr r t by (simp add: last_rev)
  ultimately show ?thesis by simp
qed


subsection \<open>Splitting at line feeds\<close>

lemma splitOn_first: "c \<notin> set l \<Longrightarrow> splitOn c (l @ c # r) = l # splitOn c r"
  by (induction l) auto

lemma splitOn_one: "c \<notin> set l \<Longrightarrow> splitOn c l = [l]"
  by (induction l) auto

lemma splitOn_pieces: "l \<in> set (splitOn c s) \<Longrightarrow> c \<notin> set l \<and> set l \<subseteq> set s"
proof (induction s arbitrary: l)
  case Nil
  then show ?case by simp
next
  case (Cons x xs)
  show ?case
  proof (cases "x = c")
    case True
    then show ?thesis using Cons by auto
  next
    case False
    obtain p ps where sp: "splitOn c xs = p # ps"
      using splitOn_nonempty [of c xs] by (cases "splitOn c xs") auto
    then have "l = x # p \<or> l \<in> set ps" using Cons.prems False by simp
    then show ?thesis
    proof
      assume "l = x # p"
      moreover have "c \<notin> set p \<and> set p \<subseteq> set xs" using Cons.IH [of p] sp by simp
      ultimately show ?thesis using False by auto
    next
      assume "l \<in> set ps"
      then have "c \<notin> set l \<and> set l \<subseteq> set xs" using Cons.IH [of l] sp by simp
      then show ?thesis by auto
    qed
  qed
qed

lemma splitOn_append:
  "splitOn c (a @ b) =
     butlast (splitOn c a) @ (last (splitOn c a) @ hd (splitOn c b)) # tl (splitOn c b)"
proof (induction a)
  case Nil
  show ?case using splitOn_nonempty [of c b] by simp
next
  case (Cons x a)
  show ?case
  proof (cases "x = c")
    case True
    then show ?thesis using Cons splitOn_nonempty [of c a] by simp
  next
    case False
    obtain p ps where sp: "splitOn c a = p # ps"
      using splitOn_nonempty [of c a] by (cases "splitOn c a") auto
    show ?thesis
    proof (cases ps)
      case Nil
      then show ?thesis using Cons sp False by simp
    next
      case (Cons q qs)
      then show ?thesis using Cons.IH sp False by simp
    qed
  qed
qed

lemma trimmedLines_prepend_ws:
  "\<forall>c\<in>set w. isWhiteSpace c \<Longrightarrow> trimmedLines (w @ v) = trimmedLines v"
proof (induction w)
  case Nil
  show ?case by simp
next
  case (Cons x w)
  then have x: "isWhiteSpace x" and ih: "trimmedLines (w @ v) = trimmedLines v" by simp_all
  obtain p ps where sp: "splitOn CHR 0x0A (w @ v) = p # ps"
    using splitOn_nonempty [of "CHR 0x0A" "w @ v"] by (cases "splitOn CHR 0x0A (w @ v)") auto
  have "trim (x # p) = trim p" using trim_prepend_ws [of "[x]" p] x by simp
  then show ?case
    using ih sp by (simp add: trimmedLines_def trim_def)
qed

lemma trimmedLines_append_ws:
  assumes "\<forall>c\<in>set w. isWhiteSpace c"
  shows "trimmedLines (v @ w) = trimmedLines v"
proof -
  define A where "A = splitOn CHR 0x0A v"
  define B where "B = splitOn CHR 0x0A w"
  have A: "A \<noteq> []" and B: "B \<noteq> []" by (simp_all add: A_def B_def splitOn_nonempty)
  have ws: "\<forall>l\<in>set B. trim l = []"
  proof
    fix l assume "l \<in> set B"
    then have "set l \<subseteq> set w" using splitOn_pieces [of l "CHR 0x0A" w] by (simp add: B_def)
    then show "trim l = []" using assms by (intro trim_ws_only) auto
  qed
  have hdB: "\<forall>c\<in>set (hd B). isWhiteSpace c"
    using splitOn_pieces [of "hd B" "CHR 0x0A" w] B assms by (auto simp: B_def)
  have tlB: "filter (\<lambda>l. l \<noteq> []) (map trim (tl B)) = []"
    using ws B by (cases B) (auto simp: filter_empty_conv)
  have "trimmedLines (v @ w) =
        filter (\<lambda>l. l \<noteq> []) (map trim (butlast A @ (last A @ hd B) # tl B))"
    by (simp add: trimmedLines_def splitOn_append A_def B_def)
  also have "\<dots> = filter (\<lambda>l. l \<noteq> []) (map trim (butlast A @ [last A]))"
    using tlB trim_append_ws [OF hdB, of "last A"] by simp
  also have "\<dots> = trimmedLines v"
    using A by (simp add: trimmedLines_def A_def)
  finally show ?thesis .
qed

lemma trimmedLines_trim: "trimmedLines (trim s) = trimmedLines s"
proof -
  obtain w1 w2 where s: "s = w1 @ trim s @ w2"
    and w1: "\<forall>c\<in>set w1. isWhiteSpace c" and w2: "\<forall>c\<in>set w2. isWhiteSpace c"
    using trim_decompose [of s] by blast
  have "trimmedLines s = trimmedLines (w1 @ trim s @ w2)" using s by simp
  also have "\<dots> = trimmedLines (trim s @ w2)" using w1 by (rule trimmedLines_prepend_ws)
  also have "\<dots> = trimmedLines (trim s)" using w2 by (rule trimmedLines_append_ws)
  finally show ?thesis by simp
qed

lemma trimmedLines_first:
  "CHR 0x0A \<notin> set p \<Longrightarrow>
   trimmedLines (p @ CHR 0x0A # z) = (if trim p = [] then trimmedLines z else trim p # trimmedLines z)"
  by (simp add: trimmedLines_def splitOn_first)


subsection \<open>The replacement between tags\<close>

lemma replaceTagGaps_other: "c \<noteq> CHR ''>'' \<Longrightarrow> replaceTagGaps (c # s) = c # replaceTagGaps s"
  by simp

lemma replaceTagGaps_match:
  "dropWhile isWhiteSpace s = CHR ''<'' # t \<Longrightarrow>
   replaceTagGaps (CHR ''>'' # s) = CHR ''>'' # CHR 0x0A # CHR ''<'' # replaceTagGaps t"
  by (simp add: newline_def)

lemma replaceTagGaps_nomatch:
  "\<not> (c = CHR ''>'' \<and> startsWith (dropWhile isWhiteSpace s) ''<'') \<Longrightarrow>
   replaceTagGaps (c # s) = c # replaceTagGaps s"
  by auto

lemma replaceTagGaps_prepend:
  "CHR ''>'' \<notin> set w \<Longrightarrow> replaceTagGaps (w @ s) = w @ replaceTagGaps s"
  by (induction w) auto

lemma replaceTagGaps_prepend_ws:
  "\<forall>c\<in>set w. isWhiteSpace c \<Longrightarrow> replaceTagGaps (w @ s) = w @ replaceTagGaps s"
  by (rule replaceTagGaps_prepend) auto

lemma dropWhile_Cons_append:
  "dropWhile P s = e # t \<Longrightarrow> dropWhile P (s @ w) = e # (t @ w)"
proof -
  assume d: "dropWhile P s = e # t"
  then have "\<not> (\<forall>x\<in>set s. P x)"
    using dropWhile_eq_Nil_conv [of P s] by simp
  then show ?thesis using d by (auto simp: dropWhile_append)
qed

lemma replaceTagGaps_append_ws:
  "\<forall>c\<in>set w. isWhiteSpace c \<Longrightarrow> replaceTagGaps (u @ w) = replaceTagGaps u @ w"
proof (induction u rule: replaceTagGaps.induct)
  case 1
  then show ?case using replaceTagGaps_prepend_ws [of w "[]"] by simp
next
  case (2 c s)
  show ?case
  proof (cases "c = CHR ''>'' \<and> startsWith (dropWhile isWhiteSpace s) ''<''")
    case True
    then obtain t where d: "dropWhile isWhiteSpace s = CHR ''<'' # t"
      by (auto simp: startsWith_lt)
    then have dw: "dropWhile isWhiteSpace (s @ w) = CHR ''<'' # (t @ w)"
      by (rule dropWhile_Cons_append)
    have "replaceTagGaps (tl (dropWhile isWhiteSpace s) @ w) =
          replaceTagGaps (tl (dropWhile isWhiteSpace s)) @ w"
      using "2.IH"(1) [OF True "2.prems"] .
    then have "replaceTagGaps (t @ w) = replaceTagGaps t @ w"
      by (simp only: d list.sel)
    moreover have "c = CHR ''>''" using True by simp
    ultimately show ?thesis
      using replaceTagGaps_match [OF d] replaceTagGaps_match [OF dw] by simp
  next
    case False
    have nd: "\<not> (c = CHR ''>'' \<and> startsWith (dropWhile isWhiteSpace (s @ w)) ''<'')"
    proof (cases "dropWhile isWhiteSpace s")
      case Nil
      then have "\<forall>x\<in>set (s @ w). isWhiteSpace x"
        using "2.prems" dropWhile_eq_Nil_conv [of isWhiteSpace s] by auto
      then have "dropWhile isWhiteSpace (s @ w) = []" by (rule dropWhile_all)
      then show ?thesis by (simp only: startsWith.simps) simp
    next
      case (Cons e t)
      then have "dropWhile isWhiteSpace (s @ w) = e # (t @ w)"
        by (rule dropWhile_Cons_append)
      then show ?thesis using False Cons by auto
    qed
    have "replaceTagGaps (s @ w) = replaceTagGaps s @ w"
      using "2.IH"(2) [OF False "2.prems"] .
    then show ?thesis
      using replaceTagGaps_nomatch [OF False] replaceTagGaps_nomatch [OF nd] by simp
  qed
qed

lemma replaceTagGaps_trim:
  "\<exists>w1 w2. replaceTagGaps s = w1 @ replaceTagGaps (trim s) @ w2 \<and>
     (\<forall>c\<in>set w1. isWhiteSpace c) \<and> (\<forall>c\<in>set w2. isWhiteSpace c)"
proof -
  obtain w1 w2 where s: "s = w1 @ trim s @ w2"
    and w1: "\<forall>c\<in>set w1. isWhiteSpace c" and w2: "\<forall>c\<in>set w2. isWhiteSpace c"
    using trim_decompose [of s] by blast
  have "replaceTagGaps s = replaceTagGaps (w1 @ trim s @ w2)" using s by simp
  also have "\<dots> = w1 @ replaceTagGaps (trim s @ w2)" using w1 by (rule replaceTagGaps_prepend_ws)
  also have "\<dots> = w1 @ replaceTagGaps (trim s) @ w2"
    using w2 by (simp add: replaceTagGaps_append_ws)
  finally show ?thesis using w1 w2 by blast
qed

lemma linesOf_trim: "linesOf (trim s) = linesOf s"
proof -
  obtain w1 w2 where r: "replaceTagGaps s = w1 @ replaceTagGaps (trim s) @ w2"
    and w1: "\<forall>c\<in>set w1. isWhiteSpace c" and w2: "\<forall>c\<in>set w2. isWhiteSpace c"
    using replaceTagGaps_trim [of s] by blast
  have "linesOf s = trimmedLines (w1 @ replaceTagGaps (trim s) @ w2)"
    by (simp add: linesOf_def r)
  also have "\<dots> = trimmedLines (replaceTagGaps (trim s) @ w2)"
    using w1 by (rule trimmedLines_prepend_ws)
  also have "\<dots> = trimmedLines (replaceTagGaps (trim s))"
    using w2 by (rule trimmedLines_append_ws)
  finally show ?thesis by (simp add: linesOf_def)
qed

lemma dropWhile_ws_clean:
  "l \<noteq> [] \<Longrightarrow> \<not> isWhiteSpace (last l) \<Longrightarrow>
   dropWhile isWhiteSpace (l @ r) = dropWhile isWhiteSpace l @ r \<and> dropWhile isWhiteSpace l \<noteq> []"
proof -
  assume "l \<noteq> []" and "\<not> isWhiteSpace (last l)"
  then have "\<not> (\<forall>c\<in>set l. isWhiteSpace c)" using last_in_set [of l] by blast
  then show ?thesis by (auto simp: dropWhile_append)
qed

lemma replaceTagGaps_line:
  assumes "l \<noteq> []" and "\<not> isWhiteSpace (last l)" and "noGap l"
  shows "replaceTagGaps (l @ CHR 0x0A # r) =
     l @ CHR 0x0A #
       (if last l = CHR ''>'' \<and> startsWith (dropWhile isWhiteSpace r) ''<''
        then CHR ''<'' # replaceTagGaps (tl (dropWhile isWhiteSpace r))
        else replaceTagGaps r)"
  using assms
proof (induction l)
  case Nil
  then show ?case by simp
next
  case (Cons c l)
  show ?case
  proof (cases "l = []")
    case True
    then show ?thesis by (simp add: newline_def)
  next
    case False
    then have last: "\<not> isWhiteSpace (last l)" and ng: "noGap l"
      using Cons.prems by simp_all
    have dw: "dropWhile isWhiteSpace (l @ CHR 0x0A # r) = dropWhile isWhiteSpace l @ CHR 0x0A # r"
      and ne: "dropWhile isWhiteSpace l \<noteq> []"
      using dropWhile_ws_clean [OF False last] by simp_all
    have "startsWith (dropWhile isWhiteSpace l @ CHR 0x0A # r) ''<'' =
          startsWith (dropWhile isWhiteSpace l) ''<''"
      using ne by (cases "dropWhile isWhiteSpace l") simp_all
    moreover have "c = CHR ''>'' \<longrightarrow> \<not> startsWith (dropWhile isWhiteSpace l) ''<''"
      using Cons.prems by simp
    ultimately have "\<not> (c = CHR ''>'' \<and>
        startsWith (dropWhile isWhiteSpace (l @ CHR 0x0A # r)) ''<'')"
      using dw by auto
    then have "replaceTagGaps (c # l @ CHR 0x0A # r) = c # replaceTagGaps (l @ CHR 0x0A # r)"
      by (rule replaceTagGaps_nomatch)
    then show ?thesis using Cons.IH [OF False last ng] False by simp
  qed
qed


subsection \<open>Lines without gaps\<close>

lemma noGap_suffix: "noGap (a @ b) \<Longrightarrow> noGap b"
  by (induction a) simp_all

lemma noGap_prefix: "noGap (a @ b) \<Longrightarrow> noGap a"
proof (induction a)
  case Nil
  show ?case by simp
next
  case (Cons c a)
  have "startsWith (dropWhile isWhiteSpace a) ''<'' \<Longrightarrow>
        startsWith (dropWhile isWhiteSpace (a @ b)) ''<''"
  proof -
    assume "startsWith (dropWhile isWhiteSpace a) ''<''"
    then obtain t where "dropWhile isWhiteSpace a = CHR ''<'' # t" by (auto simp: startsWith_lt)
    then have "dropWhile isWhiteSpace (a @ b) = CHR ''<'' # (t @ b)" by (rule dropWhile_Cons_append)
    then show ?thesis by simp
  qed
  then show ?case using Cons by auto
qed

lemma noGap_trim: "noGap l \<Longrightarrow> noGap (trim l)"
proof -
  assume l: "noGap l"
  obtain w1 w2 where "l = w1 @ trim l @ w2" using trim_decompose [of l] by blast
  then have "noGap (w1 @ trim l @ w2)" using l by simp
  then have "noGap (trim l @ w2)" by (rule noGap_suffix)
  then show ?thesis by (rule noGap_prefix)
qed

lemma replaceTagGaps_hd: "\<exists>t. replaceTagGaps (c # s) = c # t"
  by (simp add: newline_def)

lemma first_line_no_lt:
  "\<not> startsWith (dropWhile isWhiteSpace s) ''<'' \<Longrightarrow>
   \<not> startsWith (dropWhile isWhiteSpace (hd (splitOn CHR 0x0A (replaceTagGaps s)))) ''<''"
proof (induction s)
  case Nil
  show ?case by simp
next
  case (Cons c s)
  obtain p ps where sp: "splitOn CHR 0x0A (replaceTagGaps s) = p # ps"
    using splitOn_nonempty [of "CHR 0x0A" "replaceTagGaps s"]
    by (cases "splitOn CHR 0x0A (replaceTagGaps s)") auto
  show ?case
  proof (cases "isWhiteSpace c")
    case True
    then have c: "c \<noteq> CHR ''>''" by auto
    have ih: "\<not> startsWith (dropWhile isWhiteSpace p) ''<''"
      using Cons True sp by simp
    show ?thesis
      using True ih sp by (simp add: replaceTagGaps_other [OF c] del: replaceTagGaps.simps)
  next
    case False
    then have lt: "c \<noteq> CHR ''<''" using Cons.prems by auto
    have nl: "c \<noteq> CHR 0x0A" using False by auto
    obtain t where t: "replaceTagGaps (c # s) = c # t"
      using replaceTagGaps_hd by blast
    obtain q qs where sq: "splitOn CHR 0x0A t = q # qs"
      using splitOn_nonempty [of "CHR 0x0A" t] by (cases "splitOn CHR 0x0A t") auto
    have "hd (splitOn CHR 0x0A (c # t)) = c # q" using nl sq by simp
    then show ?thesis using t False lt by simp
  qed
qed

lemma lines_noGap: "\<forall>l\<in>set (splitOn CHR 0x0A (replaceTagGaps s)). noGap l"
proof (induction s rule: replaceTagGaps.induct)
  case 1
  show ?case by simp
next
  case (2 c s)
  show ?case
  proof (cases "c = CHR ''>'' \<and> startsWith (dropWhile isWhiteSpace s) ''<''")
    case True
    then obtain t where d: "dropWhile isWhiteSpace s = CHR ''<'' # t"
      by (auto simp: startsWith_lt)
    have ih: "\<forall>l\<in>set (splitOn CHR 0x0A (replaceTagGaps t)). noGap l"
      using "2.IH"(1) [OF True] d by simp
    obtain p ps where sp: "splitOn CHR 0x0A (replaceTagGaps t) = p # ps"
      using splitOn_nonempty [of "CHR 0x0A" "replaceTagGaps t"]
      by (cases "splitOn CHR 0x0A (replaceTagGaps t)") auto
    have "splitOn CHR 0x0A (replaceTagGaps (c # s)) = ''>'' # (CHR ''<'' # p) # ps"
      using True replaceTagGaps_match [OF d] sp by simp
    then show ?thesis using ih sp by simp
  next
    case False
    have ih: "\<forall>l\<in>set (splitOn CHR 0x0A (replaceTagGaps s)). noGap l"
      using "2.IH"(2) [OF False] .
    obtain p ps where sp: "splitOn CHR 0x0A (replaceTagGaps s) = p # ps"
      using splitOn_nonempty [of "CHR 0x0A" "replaceTagGaps s"]
      by (cases "splitOn CHR 0x0A (replaceTagGaps s)") auto
    have r: "replaceTagGaps (c # s) = c # replaceTagGaps s"
      using False by (rule replaceTagGaps_nomatch)
    show ?thesis
    proof (cases "c = CHR 0x0A")
      case True
      then show ?thesis using r ih by simp
    next
      case nl: False
      have "c = CHR ''>'' \<longrightarrow> \<not> startsWith (dropWhile isWhiteSpace p) ''<''"
        using first_line_no_lt [of s] False sp by auto
      then have "noGap (c # p)" using ih sp by simp
      then show ?thesis using r nl ih sp by simp
    qed
  qed
qed

lemma linesOf_clean: "\<forall>l\<in>set (linesOf xml). cleanLine l"
proof
  fix l assume "l \<in> set (linesOf xml)"
  then obtain r where r: "r \<in> set (splitOn CHR 0x0A (replaceTagGaps xml))"
    and l: "l = trim r" and ne: "l \<noteq> []"
    by (auto simp: linesOf_def trimmedLines_def)
  have "noGap r" using lines_noGap r by blast
  then have 1: "noGap l" using l by (simp add: noGap_trim)
  have "CHR 0x0A \<notin> set r" using splitOn_pieces [OF r] by simp
  moreover obtain w1 w2 where "r = w1 @ trim r @ w2" using trim_decompose [of r] by blast
  ultimately have 2: "CHR 0x0A \<notin> set l" using l by (metis Un_iff set_append)
  have 3: "\<not> isWhiteSpace (hd l) \<and> \<not> isWhiteSpace (last l)"
    using trim_ends [of r] l ne by simp
  show "cleanLine l" using 1 2 3 ne by (simp add: cleanLine_def)
qed


subsection \<open>The loop over the lines\<close>

lemma formatLines_Cons:
  "formatLines (l # rest) formatted indent =
     (if trim l = [] then formatLines rest formatted indent
      else formatLines rest
             (formatted @ indentation (lineIndent (trim l) indent) @ trim l @ newline)
             (indentAfter (trim l) indent))"
  by (simp add: Let_def lineIndent_def indentAfter_def)

lemma formatLines_acc: "formatLines ls formatted indent = formatted @ formatLines ls [] indent"
proof (induction ls arbitrary: formatted indent)
  case Nil
  show ?case by simp
next
  case (Cons l ls)
  show ?case
  proof (cases "trim l = []")
    case True
    then show ?thesis
      using Cons [of formatted indent] by (simp add: formatLines_Cons del: formatLines.simps)
  next
    case False
    let ?x = "indentation (lineIndent (trim l) indent) @ trim l @ newline"
    have "formatLines (l # ls) formatted indent =
          formatLines ls (formatted @ ?x) (indentAfter (trim l) indent)"
      using False by (simp only: formatLines_Cons if_False)
    also have "\<dots> = (formatted @ ?x) @ formatLines ls [] (indentAfter (trim l) indent)"
      by (rule Cons)
    also have "\<dots> = formatted @ formatLines ls ([] @ ?x) (indentAfter (trim l) indent)"
      using Cons [of "[] @ ?x" "indentAfter (trim l) indent"] by simp
    also have "\<dots> = formatted @ formatLines (l # ls) [] indent"
      using False by (simp only: formatLines_Cons if_False)
    finally show ?thesis .
  qed
qed

lemma trim_idem: "trim (trim l) = trim l"
proof (cases "trim l = []")
  case True
  show ?thesis unfolding True by (simp add: trim_def)
next
  case False
  then show ?thesis using trim_ends [OF False] by (intro trim_clean) simp_all
qed

lemma formatLines_trimmed:
  "formatLines ls [] indent = formatLines (filter (\<lambda>l. l \<noteq> []) (map trim ls)) [] indent"
proof (induction ls arbitrary: indent)
  case Nil
  show ?case by simp
next
  case (Cons l ls)
  let ?ts = "filter (\<lambda>l. l \<noteq> []) (map trim ls)"
  show ?case
  proof (cases "trim l = []")
    case True
    then show ?thesis using Cons [of indent] by (simp add: formatLines_Cons del: formatLines.simps)
  next
    case False
    let ?x = "indentation (lineIndent (trim l) indent) @ trim l @ newline"
    let ?j = "indentAfter (trim l) indent"
    have "formatLines (l # ls) [] indent = formatLines ls ([] @ ?x) ?j"
      using False by (simp only: formatLines_Cons if_False)
    also have "\<dots> = ?x @ formatLines ls [] ?j"
      using formatLines_acc [of ls "[] @ ?x" ?j] by simp
    also have "\<dots> = ?x @ formatLines ?ts [] ?j" using Cons [of ?j] by simp
    also have "\<dots> = formatLines ?ts ([] @ ?x) ?j"
      using formatLines_acc [of ?ts "[] @ ?x" ?j] by simp
    also have "\<dots> = formatLines (trim l # ?ts) [] indent"
      using False by (simp only: formatLines_Cons trim_idem if_False)
    finally show ?thesis using False by simp
  qed
qed

lemma formatXML_lines: "formatXML xml = trim (formatLines (linesOf xml) [] 0)"
  using formatLines_trimmed [of "splitOn CHR 0x0A (replaceTagGaps xml)" 0]
  by (simp add: formatXML_def linesOf_def trimmedLines_def)

lemma indentation_spaces: "\<forall>c\<in>set (indentation k). isWhiteSpace c \<and> c \<noteq> CHR 0x0A \<and> c \<noteq> CHR ''>''"
  by (auto simp: indentation_def isWhiteSpace_def)

lemma formatLines_clean:
  assumes "cleanLine l"
  shows "formatLines (l # ls) [] indent =
     indentation (lineIndent l indent) @ l @ CHR 0x0A # formatLines ls [] (indentAfter l indent)"
proof -
  have t: "trim l = l" using assms by (intro trim_clean) (simp_all add: cleanLine_def)
  have ne: "l \<noteq> []" using assms by (simp add: cleanLine_def)
  let ?x = "indentation (lineIndent l indent) @ l @ newline"
  have "formatLines (l # ls) [] indent = formatLines ls ([] @ ?x) (indentAfter l indent)"
    using ne by (simp only: formatLines_Cons t if_False)
  also have "\<dots> = ?x @ formatLines ls [] (indentAfter l indent)"
    using formatLines_acc [of ls "[] @ ?x" "indentAfter l indent"] by simp
  finally show ?thesis by (simp add: newline_def)
qed

lemma linesOf_step:
  assumes l: "cleanLine l"
    and ind: "\<forall>c\<in>set ind. isWhiteSpace c \<and> c \<noteq> CHR 0x0A \<and> c \<noteq> CHR ''>''"
  shows "linesOf (ind @ l @ CHR 0x0A # r) = l # linesOf r"
proof -
  have ne: "l \<noteq> []" and hd: "\<not> isWhiteSpace (hd l)" and last: "\<not> isWhiteSpace (last l)"
    and nl: "CHR 0x0A \<notin> set l" and ng: "noGap l"
    using l by (simp_all add: cleanLine_def)
  define z where "z =
     (if last l = CHR ''>'' \<and> startsWith (dropWhile isWhiteSpace r) ''<''
      then CHR ''<'' # replaceTagGaps (tl (dropWhile isWhiteSpace r))
      else replaceTagGaps r)"
  have "replaceTagGaps (ind @ l @ CHR 0x0A # r) = ind @ replaceTagGaps (l @ CHR 0x0A # r)"
    using ind by (intro replaceTagGaps_prepend) auto
  also have "\<dots> = (ind @ l) @ CHR 0x0A # z"
    using replaceTagGaps_line [OF ne last ng, of r] by (simp add: z_def)
  finally have "linesOf (ind @ l @ CHR 0x0A # r) = trimmedLines ((ind @ l) @ CHR 0x0A # z)"
    by (simp add: linesOf_def)
  also have "\<dots> = (if trim (ind @ l) = [] then trimmedLines z else trim (ind @ l) # trimmedLines z)"
    using nl ind by (intro trimmedLines_first) auto
  also have "trim (ind @ l) = l"
    using trim_prepend_ws [of ind l] ind trim_clean [OF ne hd last] by simp
  finally have 1: "linesOf (ind @ l @ CHR 0x0A # r) = l # trimmedLines z"
    using ne by simp
  have "trimmedLines z = linesOf r"
  proof (cases "last l = CHR ''>'' \<and> startsWith (dropWhile isWhiteSpace r) ''<''")
    case False
    have "z = replaceTagGaps r" unfolding z_def using False by (rule if_not_P)
    then show ?thesis by (simp add: linesOf_def)
  next
    case True
    then obtain t where d: "dropWhile isWhiteSpace r = CHR ''<'' # t"
      by (auto simp: startsWith_lt)
    define w where "w = takeWhile isWhiteSpace r"
    have w: "\<forall>c\<in>set w. isWhiteSpace c" by (auto simp: w_def dest: set_takeWhileD)
    have "r = w @ CHR ''<'' # t"
      using takeWhile_dropWhile_id [of isWhiteSpace r] d by (simp add: w_def)
    then have "replaceTagGaps r = w @ replaceTagGaps (CHR ''<'' # t)"
      using replaceTagGaps_prepend_ws [OF w, of "CHR ''<'' # t"] by simp
    then have "replaceTagGaps r = w @ CHR ''<'' # replaceTagGaps t"
      by (simp add: replaceTagGaps_other)
    then have "linesOf r = trimmedLines (CHR ''<'' # replaceTagGaps t)"
      using trimmedLines_prepend_ws [OF w] by (simp add: linesOf_def)
    moreover have "z = CHR ''<'' # replaceTagGaps (tl (dropWhile isWhiteSpace r))"
      unfolding z_def using True by (rule if_P)
    then have "z = CHR ''<'' # replaceTagGaps t" by (simp only: d list.sel)
    ultimately show ?thesis by simp
  qed
  with 1 show ?thesis by simp
qed

lemma linesOf_formatLines:
  "\<forall>l\<in>set ls. cleanLine l \<Longrightarrow> linesOf (formatLines ls [] indent) = ls"
proof (induction ls arbitrary: indent)
  case Nil
  show ?case by (simp add: linesOf_def trimmedLines_def trim_def)
next
  case (Cons l ls)
  then have l: "cleanLine l" and ih: "linesOf (formatLines ls [] (indentAfter l indent)) = ls"
    by simp_all
  show ?case
    using linesOf_step [OF l indentation_spaces, of "lineIndent l indent"
        "formatLines ls [] (indentAfter l indent)"] ih
    by (simp only: formatLines_clean [OF l])
qed

text \<open>
  C9. \<open>formatXML\<close> is idempotent: for every text, formatting the formatted text again gives
  the formatted text. The second run finds the same non-empty trimmed lines as the first, since
  a replacement can only happen where one line ends with \<open>></\<close> and the next begins with \<open><\<close>,
  and there it removes the indentation only.
\<close>

theorem formatXML_idempotent: "formatXML (formatXML xml) = formatXML xml"
proof -
  have "linesOf (formatXML xml) = linesOf (formatLines (linesOf xml) [] 0)"
    by (simp only: formatXML_lines linesOf_trim)
  also have "\<dots> = linesOf xml"
    using linesOf_clean by (rule linesOf_formatLines)
  finally show ?thesis by (simp only: formatXML_lines [of "formatXML xml"]) (simp only: formatXML_lines)
qed


end
